theory Spec2Isabelle
  imports Main
begin

section \<open>Characters and style constants\<close>

text \<open>
  The lexer of \<^verbatim>\<open>LexMarkdown.cxx\<close> works on bytes (\<^verbatim>\<open>int ch\<close> read through
  \<^verbatim>\<open>unsigned char\<close>); a document is a \<^typ>\<open>string\<close> and a character a \<^typ>\<open>char\<close>.
\<close>

abbreviation (input) NUL :: char where "NUL \<equiv> CHR 0x00"
abbreviation (input) TAB :: char where "TAB \<equiv> CHR 0x09"
abbreviation (input) LF :: char where "LF \<equiv> CHR 0x0A"
abbreviation (input) CR :: char where "CR \<equiv> CHR 0x0D"
abbreviation (input) SPC :: char where "SPC \<equiv> CHR 0x20"
abbreviation (input) BSLASH :: char where "BSLASH \<equiv> CHR 0x5C"
abbreviation (input) BTICK :: char where "BTICK \<equiv> CHR 0x60"

text \<open>
  Modelled from the spec: the values of the \<^verbatim>\<open>SCE_MARKDOWN_*\<close> constants
  (\<^verbatim>\<open>SciLexer.h\<close> is not among the sources). The specification fixes their ordinal
  order as DEFAULT, LINE_BEGIN, STRONG1, STRONG2, STRIKEOUT, CODE, CODE2, CODEBK,
  HEADER1..HEADER6, HRULE, BLOCKQUOTE, PRECHAR, LINK; a style is the \<^verbatim>\<open>int\<close> the
  source stores in \<^verbatim>\<open>sc.state\<close>.
\<close>

abbreviation (input) SCE_MARKDOWN_DEFAULT :: nat where "SCE_MARKDOWN_DEFAULT \<equiv> 0"
abbreviation (input) SCE_MARKDOWN_LINE_BEGIN :: nat where "SCE_MARKDOWN_LINE_BEGIN \<equiv> 1"
abbreviation (input) SCE_MARKDOWN_STRONG1 :: nat where "SCE_MARKDOWN_STRONG1 \<equiv> 2"
abbreviation (input) SCE_MARKDOWN_STRONG2 :: nat where "SCE_MARKDOWN_STRONG2 \<equiv> 3"
abbreviation (input) SCE_MARKDOWN_STRIKEOUT :: nat where "SCE_MARKDOWN_STRIKEOUT \<equiv> 4"
abbreviation (input) SCE_MARKDOWN_CODE :: nat where "SCE_MARKDOWN_CODE \<equiv> 5"
abbreviation (input) SCE_MARKDOWN_CODE2 :: nat where "SCE_MARKDOWN_CODE2 \<equiv> 6"
abbreviation (input) SCE_MARKDOWN_CODEBK :: nat where "SCE_MARKDOWN_CODEBK \<equiv> 7"
abbreviation (input) SCE_MARKDOWN_HEADER1 :: nat where "SCE_MARKDOWN_HEADER1 \<equiv> 8"
abbreviation (input) SCE_MARKDOWN_HEADER2 :: nat where "SCE_MARKDOWN_HEADER2 \<equiv> 9"
abbreviation (input) SCE_MARKDOWN_HEADER3 :: nat where "SCE_MARKDOWN_HEADER3 \<equiv> 10"
abbreviation (input) SCE_MARKDOWN_HEADER4 :: nat where "SCE_MARKDOWN_HEADER4 \<equiv> 11"
abbreviation (input) SCE_MARKDOWN_HEADER5 :: nat where "SCE_MARKDOWN_HEADER5 \<equiv> 12"
abbreviation (input) SCE_MARKDOWN_HEADER6 :: nat where "SCE_MARKDOWN_HEADER6 \<equiv> 13"
abbreviation (input) SCE_MARKDOWN_HRULE :: nat where "SCE_MARKDOWN_HRULE \<equiv> 14"
abbreviation (input) SCE_MARKDOWN_BLOCKQUOTE :: nat where "SCE_MARKDOWN_BLOCKQUOTE \<equiv> 15"
abbreviation (input) SCE_MARKDOWN_PRECHAR :: nat where "SCE_MARKDOWN_PRECHAR \<equiv> 16"
abbreviation (input) SCE_MARKDOWN_LINK :: nat where "SCE_MARKDOWN_LINK \<equiv> 17"

definition IsNewline :: "char \<Rightarrow> bool" where
  "IsNewline c = (c = LF \<or> c = CR)"

text \<open>
  Modelled from the spec: \<^verbatim>\<open>IsASpaceOrTab\<close> and \<^verbatim>\<open>isspacechar\<close>
  (\<^verbatim>\<open>CharacterSet.h\<close> is not among the sources): a space or a tab; and "whitespace",
  a space or one of the control characters 9 to 13.
\<close>

definition IsASpaceOrTab :: "char \<Rightarrow> bool" where
  "IsASpaceOrTab c = (c = SPC \<or> c = TAB)"

definition isspacechar :: "char \<Rightarrow> bool" where
  "isspacechar c =
     (c = SPC \<or> c = TAB \<or> c = LF \<or> c = CHR 0x0B \<or> c = CHR 0x0C \<or> c = CR)"

section \<open>The buffer accessor\<close>

text \<open>
  Modelled from the spec: the buffer accessor (\<^verbatim>\<open>Accessor.h\<close>, \<^verbatim>\<open>LexAccessor.h\<close>
  are not among the sources): an indexable character read by absolute offset that
  answers NUL outside the document, line-start and line-number lookup where a line ends
  at LF, CR or CR LF, the stored classification of a position, and the span-closing write.
\<close>

definition SafeGetCharAt :: "string \<Rightarrow> int \<Rightarrow> char" where
  "SafeGetCharAt doc p = (if 0 \<le> p \<and> p < int (length doc) then doc ! nat p else NUL)"

fun lineStartsFrom :: "nat \<Rightarrow> string \<Rightarrow> nat list" where
  "lineStartsFrom p [] = []"
| "lineStartsFrom p [c] = (if IsNewline c then [p + 1] else [])"
| "lineStartsFrom p (c # d # cs) =
     (if c = CR \<and> d = LF then lineStartsFrom (p + 1) (d # cs)
      else if IsNewline c then (p + 1) # lineStartsFrom (p + 1) (d # cs)
      else lineStartsFrom (p + 1) (d # cs))"

definition lineStarts :: "string \<Rightarrow> nat list" where
  "lineStarts doc = 0 # lineStartsFrom 0 doc"

definition GetLine :: "string \<Rightarrow> nat \<Rightarrow> int" where
  "GetLine doc pos = int (length (filter (\<lambda>s. s \<le> pos) (lineStarts doc))) - 1"

definition LineStart :: "string \<Rightarrow> int \<Rightarrow> nat" where
  "LineStart doc line =
     (if line < 0 then 0
      else if length (lineStarts doc) \<le> nat line then length doc
      else lineStarts doc ! nat line)"

definition StyleAt :: "nat list \<Rightarrow> nat \<Rightarrow> nat" where
  "StyleAt styles p = (if p < length styles then styles ! p else 0)"

section \<open>The scan cursor and the scan state\<close>

text \<open>
  Modelled from the spec: the scan cursor (\<^verbatim>\<open>StyleContext.h\<close> is not among the
  sources): a forward-only position with the current, next and previous character,
  line-start detection, relative reads, and the emission of a closed style span
  \<open>(endOffset, classification)\<close> when the classification changes. The three locals of
  \<^verbatim>\<open>ColorizeMarkdownDoc\<close> (\<open>precharCount\<close>, \<open>isLinkNameDetecting\<close>,
  \<open>freezeCursor\<close>) are fields of the same record, as the specification asks.
  Characters are single bytes (an 8-bit encoding), so the cursor advances by one offset;
  offsets and styles are natural numbers (documents and style bytes as the host passes
  them), and the cursor holds the document's end as \<open>lengthDocument\<close>, with the range
  end moved one past it when the range ends where the document ends.
\<close>

record StyleContext =
  endPos_sc :: nat
  lengthDocument :: nat
  currentPos :: nat
  atLineStart :: bool
  atLineEnd :: bool
  state :: nat
  chPrev :: char
  ch :: char
  chNext :: char
  startSeg :: nat
  spans :: "(nat \<times> nat) list"
  precharCount :: nat
  isLinkNameDetecting :: bool
  freezeCursor :: bool

text \<open>
  \<^verbatim>\<open>ColourTo(pos, attr)\<close>: nothing is written when \<open>pos = startSeg - 1\<close> (an empty
  segment); the positions are \<^verbatim>\<open>unsigned\<close> in the source, where \<open>0 - 1\<close> wraps on
  both sides of that comparison, so the comparison is the one on integers.
\<close>

definition ColourTo :: "int \<Rightarrow> nat \<Rightarrow> StyleContext \<Rightarrow> StyleContext" where
  "ColourTo pos attr sc =
     (if pos \<noteq> int (startSeg sc) - 1 then
        (if pos < int (startSeg sc) then sc
         else sc\<lparr>spans := spans sc @ [(nat pos, attr)], startSeg := nat pos + 1\<rparr>)
      else sc\<lparr>startSeg := nat (pos + 1)\<rparr>)"

definition GetRelative :: "string \<Rightarrow> StyleContext \<Rightarrow> int \<Rightarrow> char" where
  "GetRelative doc sc n = SafeGetCharAt doc (int (currentPos sc) + n)"

definition atLineEndAt :: "string \<Rightarrow> nat \<Rightarrow> nat \<Rightarrow> bool" where
  "atLineEndAt doc endp p =
     ((SafeGetCharAt doc (int p) = CR \<and> SafeGetCharAt doc (int p + 1) \<noteq> LF) \<or>
      SafeGetCharAt doc (int p) = LF \<or> endp \<le> p)"

definition StyleContext_init :: "string \<Rightarrow> nat \<Rightarrow> nat \<Rightarrow> nat \<Rightarrow> StyleContext" where
  "StyleContext_init doc startPos len initStyle =
     \<lparr> endPos_sc = (if startPos + len = length doc then startPos + len + 1 else startPos + len),
       lengthDocument = length doc,
       currentPos = startPos,
       atLineStart = (LineStart doc (GetLine doc startPos) = startPos),
       atLineEnd = atLineEndAt doc
         (if startPos + len = length doc then startPos + len + 1 else startPos + len) startPos,
       state = initStyle,
       chPrev = NUL,
       ch = SafeGetCharAt doc (int startPos),
       chNext = SafeGetCharAt doc (int startPos + 1),
       startSeg = startPos,
       spans = [],
       precharCount = 0,
       isLinkNameDetecting = False,
       freezeCursor = False \<rparr>"

definition More :: "StyleContext \<Rightarrow> bool" where
  "More sc = (currentPos sc < endPos_sc sc)"

definition Forward :: "string \<Rightarrow> StyleContext \<Rightarrow> StyleContext" where
  "Forward doc sc =
     (if currentPos sc < endPos_sc sc then
        sc\<lparr> atLineStart := atLineEnd sc,
            chPrev := ch sc,
            currentPos := currentPos sc + 1,
            ch := chNext sc,
            chNext := SafeGetCharAt doc (int (currentPos sc) + 2),
            atLineEnd := atLineEndAt doc (endPos_sc sc) (currentPos sc + 1) \<rparr>
      else
        sc\<lparr> atLineStart := False, chPrev := SPC, ch := SPC, chNext := SPC,
            atLineEnd := True \<rparr>)"

fun ForwardN :: "string \<Rightarrow> nat \<Rightarrow> StyleContext \<Rightarrow> StyleContext" where
  "ForwardN doc 0 sc = sc"
| "ForwardN doc (Suc n) sc = ForwardN doc n (Forward doc sc)"

definition ChangeState :: "nat \<Rightarrow> StyleContext \<Rightarrow> StyleContext" where
  "ChangeState st sc = sc\<lparr>state := st\<rparr>"

definition segEnd :: "StyleContext \<Rightarrow> int" where
  "segEnd sc =
     int (currentPos sc) - (if lengthDocument sc < currentPos sc then 2 else 1)"

definition SetState :: "nat \<Rightarrow> StyleContext \<Rightarrow> StyleContext" where
  "SetState st sc = (ColourTo (segEnd sc) (state sc) sc)\<lparr>state := st\<rparr>"

definition ForwardSetState :: "string \<Rightarrow> nat \<Rightarrow> StyleContext \<Rightarrow> StyleContext" where
  "ForwardSetState doc st sc = SetState st (Forward doc sc)"

definition Complete :: "StyleContext \<Rightarrow> StyleContext" where
  "Complete sc = ColourTo (segEnd sc) (state sc) sc"

fun matchFrom :: "string \<Rightarrow> int \<Rightarrow> string \<Rightarrow> bool" where
  "matchFrom doc p [] = True"
| "matchFrom doc p (c # cs) = (SafeGetCharAt doc p = c \<and> matchFrom doc (p + 1) cs)"

text \<open>\<^verbatim>\<open>Match(const char *s)\<close> is only ever called with a non-empty literal.\<close>

fun Match :: "string \<Rightarrow> StyleContext \<Rightarrow> string \<Rightarrow> bool" where
  "Match doc sc [] = (ch sc = NUL)"
| "Match doc sc [a] = (ch sc = a)"
| "Match doc sc (a # b # cs) =
     (ch sc = a \<and> chNext sc = b \<and> matchFrom doc (int (currentPos sc) + 2) cs)"

section \<open>Lookahead predicates\<close>

text \<open>
  The loops of the predicates run over the absolute offset \<open>currentPos + i\<close>. A read
  outside the document answers NUL, which is neither a marker nor a blank, so the loops
  that follow a marker stop at the end of the document at the latest; the bound
  \<open>p < length doc\<close> says so (the callers pass \<open>=\<close>, \<open>-\<close>, \<open>*\<close> or \<open>_\<close> as marker).
\<close>

function runEnd :: "string \<Rightarrow> char \<Rightarrow> nat \<Rightarrow> nat" where
  "runEnd doc c p =
     (if p < length doc \<and> SafeGetCharAt doc (int p) = c then runEnd doc c (p + 1) else p)"
  by pat_completeness auto
termination
  by (relation "measure (\<lambda>(doc, c, p). length doc - p)") auto

function skipBlanks :: "string \<Rightarrow> nat \<Rightarrow> nat \<Rightarrow> nat" where
  "skipBlanks doc endPos p =
     (if IsASpaceOrTab (SafeGetCharAt doc (int p)) \<and> p < endPos
      then skipBlanks doc endPos (p + 1) else p)"
  by pat_completeness auto
termination
  by (relation "measure (\<lambda>(doc, endPos, p). endPos - p)") auto

definition FollowToLineEnd ::
    "string \<Rightarrow> char \<Rightarrow> nat \<Rightarrow> nat \<Rightarrow> StyleContext \<Rightarrow> bool \<times> StyleContext" where
  "FollowToLineEnd doc c st endPos sc =
     (let p = skipBlanks doc endPos (runEnd doc c (currentPos sc + 1)) in
      if IsNewline (SafeGetCharAt doc (int p)) \<or> p = endPos
      then (True, SetState SCE_MARKDOWN_LINE_BEGIN
                    (ChangeState st (ForwardN doc (p - currentPos sc) sc)))
      else (False, sc))"

function backToNewline :: "string \<Rightarrow> int \<Rightarrow> int" where
  "backToNewline doc q =
     (if 0 \<le> q \<and> \<not> IsNewline (SafeGetCharAt doc q) then backToNewline doc (q - 1) else q)"
  by pat_completeness auto
termination
  by (relation "measure (\<lambda>(doc, q). nat (q + 1))") auto

function contentBack :: "string \<Rightarrow> int \<Rightarrow> bool" where
  "contentBack doc q =
     (if 0 \<le> q then
        (if IsNewline (SafeGetCharAt doc q) then False
         else if \<not> IsASpaceOrTab (SafeGetCharAt doc q) then True
         else contentBack doc (q - 1))
      else False)"
  by pat_completeness auto
termination
  by (relation "measure (\<lambda>(doc, q). nat (q + 1))") auto

definition HasPrevLineContent :: "string \<Rightarrow> StyleContext \<Rightarrow> bool" where
  "HasPrevLineContent doc sc =
     (let q = backToNewline doc (int (currentPos sc) - 1);
          q' = (if SafeGetCharAt doc (q - 1) = CR \<and> SafeGetCharAt doc q = LF
                then q - 1 else q)
      in contentBack doc (q' - 1))"

definition IsPrevLineEmpty :: "string \<Rightarrow> StyleContext \<Rightarrow> bool" where
  "IsPrevLineEmpty doc sc =
     (let q = backToNewline doc (int (currentPos sc) - 1);
          q' = (if SafeGetCharAt doc (q - 1) = CR \<and> SafeGetCharAt doc q = LF then q - 2
                else if SafeGetCharAt doc q = CR \<or> SafeGetCharAt doc q = LF then q - 1
                else q)
      in IsNewline (SafeGetCharAt doc q') \<or> q' \<le> 0)"

definition AtTermStart :: "StyleContext \<Rightarrow> bool" where
  "AtTermStart sc = (currentPos sc = 0 \<or> chPrev sc = NUL \<or> isspacechar (chPrev sc))"

function hruleScan :: "string \<Rightarrow> nat \<Rightarrow> char \<Rightarrow> nat \<Rightarrow> nat \<Rightarrow> nat \<times> nat" where
  "hruleScan doc endPos m count p =
     (if p < length doc \<and> SafeGetCharAt doc (int p) = m
      then hruleScan doc endPos m (count + 1) (p + 1)
      else if \<not> IsASpaceOrTab (SafeGetCharAt doc (int p)) \<or> p = endPos then (count, p)
      else hruleScan doc endPos m count (p + 1))"
  by pat_completeness auto
termination
  by (relation "measure (\<lambda>(doc, endPos, m, count, p). length doc - p)")
     (auto simp: SafeGetCharAt_def IsASpaceOrTab_def split: if_splits)

definition IsValidHrule :: "string \<Rightarrow> nat \<Rightarrow> StyleContext \<Rightarrow> bool \<times> StyleContext" where
  "IsValidHrule doc endPos sc =
     (let (count, p) = hruleScan doc endPos (ch sc) 1 (currentPos sc + 1);
          c = SafeGetCharAt doc (int p)
      in if (IsNewline c \<or> p = endPos) \<and> 3 \<le> count \<and> \<not> HasPrevLineContent doc sc
         then (True, SetState SCE_MARKDOWN_LINE_BEGIN
                       (ForwardN doc (p - currentPos sc) (SetState SCE_MARKDOWN_HRULE sc)))
         else (False, SetState SCE_MARKDOWN_DEFAULT sc))"

function firstLineScan :: "string \<Rightarrow> nat \<Rightarrow> bool \<Rightarrow> nat \<Rightarrow> bool \<times> nat" where
  "firstLineScan doc endPos has p =
     (if p < endPos \<and> \<not> IsNewline (SafeGetCharAt doc (int p))
      then firstLineScan doc endPos (has \<or> \<not> IsASpaceOrTab (SafeGetCharAt doc (int p))) (p + 1)
      else (has, p))"
  by pat_completeness auto
termination
  by (relation "measure (\<lambda>(doc, endPos, has, p). endPos - p)") auto

function skipHdr :: "string \<Rightarrow> nat \<Rightarrow> char \<Rightarrow> nat \<Rightarrow> nat" where
  "skipHdr doc endPos c p =
     (if p < endPos \<and> SafeGetCharAt doc (int p) = c then skipHdr doc endPos c (p + 1) else p)"
  by pat_completeness auto
termination
  by (relation "measure (\<lambda>(doc, endPos, c, p). endPos - p)") auto

definition IsUnderlinedHeader :: "string \<Rightarrow> char \<Rightarrow> nat \<Rightarrow> StyleContext \<Rightarrow> bool" where
  "IsUnderlinedHeader doc hdrCh endPos sc =
     (let (firstLineHasContent, p) = firstLineScan doc endPos False (currentPos sc);
          c = SafeGetCharAt doc (int p)
      in if \<not> firstLineHasContent \<or> \<not> IsNewline c then False
         else
           (let p2 = p + (if c = CR \<and> SafeGetCharAt doc (int p + 1) = LF then 2 else 1) in
            if SafeGetCharAt doc (int p2) \<noteq> hdrCh then False
            else
              (let p3 = skipHdr doc endPos hdrCh p2;
                   p4 = skipBlanks doc endPos p3
               in IsNewline (SafeGetCharAt doc (int p4)) \<or> p4 = endPos)))"

function toLineEnd :: "string \<Rightarrow> nat \<Rightarrow> nat \<Rightarrow> nat" where
  "toLineEnd doc endPos p =
     (if \<not> IsNewline (SafeGetCharAt doc (int p)) \<and> p < endPos
      then toLineEnd doc endPos (p + 1) else p)"
  by pat_completeness auto
termination
  by (relation "measure (\<lambda>(doc, endPos, p). endPos - p)") auto

declare toLineEnd.simps [simp del]

declare runEnd.simps [simp del] skipBlanks.simps [simp del] backToNewline.simps [simp del]
  contentBack.simps [simp del] hruleScan.simps [simp del] firstLineScan.simps [simp del]
  skipHdr.simps [simp del]

section \<open>The dispatch core\<close>

definition lineBeginActions :: "string \<Rightarrow> nat \<Rightarrow> StyleContext \<Rightarrow> StyleContext" where
  "lineBeginActions doc endPos sc =
     (if Match doc sc ''######'' then SetState SCE_MARKDOWN_HEADER6 sc
      else if Match doc sc ''#####'' then SetState SCE_MARKDOWN_HEADER5 sc
      else if Match doc sc ''####'' then SetState SCE_MARKDOWN_HEADER4 sc
      else if Match doc sc ''###'' then SetState SCE_MARKDOWN_HEADER3 sc
      else if Match doc sc ''##'' then SetState SCE_MARKDOWN_HEADER2 sc
      else if Match doc sc ''#'' then SetState SCE_MARKDOWN_HEADER1 sc
      else if Match doc sc ''~~~'' then
        (if \<not> HasPrevLineContent doc sc then SetState SCE_MARKDOWN_CODEBK sc
         else SetState SCE_MARKDOWN_DEFAULT sc)
      else if IsUnderlinedHeader doc (CHR ''='') endPos sc then SetState SCE_MARKDOWN_HEADER1 sc
      else if ch sc = CHR ''='' then
        (if HasPrevLineContent doc sc \<and>
            fst (FollowToLineEnd doc (CHR ''='') SCE_MARKDOWN_HEADER1 endPos sc)
         then snd (FollowToLineEnd doc (CHR ''='') SCE_MARKDOWN_HEADER1 endPos sc)
         else SetState SCE_MARKDOWN_DEFAULT sc)
      else if IsUnderlinedHeader doc (CHR ''-'') endPos sc then SetState SCE_MARKDOWN_HEADER2 sc
      else if ch sc = CHR ''-'' then
        (if HasPrevLineContent doc sc \<and>
            fst (FollowToLineEnd doc (CHR ''-'') SCE_MARKDOWN_HEADER2 endPos sc)
         then snd (FollowToLineEnd doc (CHR ''-'') SCE_MARKDOWN_HEADER2 endPos sc)
         else SetState SCE_MARKDOWN_PRECHAR (sc\<lparr>precharCount := 0\<rparr>))
      else if IsNewline (ch sc) then SetState SCE_MARKDOWN_LINE_BEGIN sc
      else SetState SCE_MARKDOWN_PRECHAR (sc\<lparr>precharCount := 0\<rparr>))"

definition isHeaderState :: "nat \<Rightarrow> bool" where
  "isHeaderState st =
     (st = SCE_MARKDOWN_HEADER1 \<or> st = SCE_MARKDOWN_HEADER2 \<or> st = SCE_MARKDOWN_HEADER3 \<or>
      st = SCE_MARKDOWN_HEADER4 \<or> st = SCE_MARKDOWN_HEADER5 \<or> st = SCE_MARKDOWN_HEADER6)"

text \<open>
  The chain of \<^verbatim>\<open>if ... else if\<close> on \<^verbatim>\<open>sc.state\<close>, in the order of the source;
  the source tests \<^verbatim>\<open>SCE_MARKDOWN_CODEBK\<close> twice, and so does the chain.
\<close>

definition stateActions :: "string \<Rightarrow> nat \<Rightarrow> StyleContext \<Rightarrow> StyleContext" where
  "stateActions doc endPos sc =
     (if state sc = SCE_MARKDOWN_CODE2 then
        (if Match doc sc [BTICK, BTICK, BTICK]
         then SetState SCE_MARKDOWN_DEFAULT (ForwardN doc 3 sc) else sc)
      else if state sc = SCE_MARKDOWN_CODE then
        (if ch sc = BTICK \<and> chPrev sc \<noteq> SPC
         then ForwardSetState doc SCE_MARKDOWN_DEFAULT sc else sc)
      else if state sc = SCE_MARKDOWN_CODEBK then
        (if atLineStart sc \<and> ch sc \<noteq> TAB \<and>
            \<not> list_all (\<lambda>i. GetRelative doc sc i = SPC) [0, 1, 2, 3]
         then SetState SCE_MARKDOWN_LINE_BEGIN sc else sc)
      else if state sc = SCE_MARKDOWN_STRONG1 then
        (if Match doc sc ''**'' \<and> chPrev sc \<noteq> SPC
         then SetState SCE_MARKDOWN_DEFAULT (ForwardN doc 2 sc) else sc)
      else if state sc = SCE_MARKDOWN_STRONG2 then
        (if Match doc sc ''__'' \<and> chPrev sc \<noteq> SPC
         then SetState SCE_MARKDOWN_DEFAULT (ForwardN doc 2 sc) else sc)
      else if state sc = SCE_MARKDOWN_CODEBK then
        (if atLineStart sc \<and> Match doc sc ''~~~''
         then SetState SCE_MARKDOWN_DEFAULT
                (ForwardN doc (toLineEnd doc endPos (currentPos sc + 1) - currentPos sc) sc)
         else sc)
      else if state sc = SCE_MARKDOWN_STRIKEOUT then
        (if Match doc sc ''~~'' \<and> chPrev sc \<noteq> SPC
         then SetState SCE_MARKDOWN_DEFAULT (ForwardN doc 2 sc) else sc)
      else if state sc = SCE_MARKDOWN_LINE_BEGIN then lineBeginActions doc endPos sc
      else if isHeaderState (state sc) then
        (if IsNewline (ch sc) then SetState SCE_MARKDOWN_LINE_BEGIN sc else sc)
      else sc)"

text \<open>
  \<^verbatim>\<open>IsValidHrule\<close> changes the cursor also when it fails (it opens DEFAULT), and the
  chain goes on from that cursor to the test \<^verbatim>\<open>sc.ch != ' '\<close>.
\<close>

definition isHruleChar :: "char \<Rightarrow> bool" where
  "isHruleChar c = (c = CHR ''-'' \<or> c = CHR ''*'' \<or> c = CHR ''_'')"

definition precharTail :: "StyleContext \<Rightarrow> StyleContext" where
  "precharTail sc =
     (if ch sc \<noteq> SPC then SetState SCE_MARKDOWN_DEFAULT sc
      else sc\<lparr>precharCount := precharCount sc + 1\<rparr>)"

definition precharActions :: "string \<Rightarrow> nat \<Rightarrow> StyleContext \<Rightarrow> StyleContext" where
  "precharActions doc endPos sc =
     (if state sc = SCE_MARKDOWN_PRECHAR then
        (if ch sc = CHR ''>'' \<and> precharCount sc < 5 then SetState SCE_MARKDOWN_BLOCKQUOTE sc
         else if IsPrevLineEmpty doc sc \<and> (chPrev sc = TAB \<or> 4 \<le> precharCount sc)
           then SetState SCE_MARKDOWN_CODEBK sc
         else if isHruleChar (ch sc) then
           (if fst (IsValidHrule doc endPos sc) then snd (IsValidHrule doc endPos sc)
            else precharTail (snd (IsValidHrule doc endPos sc)))
         else precharTail sc)
      else sc)"

definition linkActions :: "string \<Rightarrow> StyleContext \<Rightarrow> StyleContext" where
  "linkActions doc sc =
     (if state sc = SCE_MARKDOWN_LINK then
        (if Match doc sc '']('' \<and> GetRelative doc sc (- 1) \<noteq> BSLASH
           then (ForwardN doc 2 sc)\<lparr>isLinkNameDetecting := True\<rparr>
         else if Match doc sc '']:'' \<and> GetRelative doc sc (- 1) \<noteq> BSLASH
           then SetState SCE_MARKDOWN_DEFAULT (ForwardN doc 2 sc)
         else if \<not> isLinkNameDetecting sc \<and> ch sc = CHR '']'' \<and>
                 GetRelative doc sc (- 1) \<noteq> BSLASH
           then SetState SCE_MARKDOWN_DEFAULT (Forward doc sc)
         else if isLinkNameDetecting sc \<and> ch sc = CHR '')'' \<and>
                 GetRelative doc sc (- 1) \<noteq> BSLASH
           then (SetState SCE_MARKDOWN_DEFAULT (Forward doc sc))\<lparr>isLinkNameDetecting := False\<rparr>
         else sc)
      else sc)"

definition defaultActions :: "string \<Rightarrow> nat \<Rightarrow> StyleContext \<Rightarrow> StyleContext" where
  "defaultActions doc endPos sc =
     (if state sc = SCE_MARKDOWN_DEFAULT then
        (if atLineStart sc \<and>
            (ch sc = CHR ''#'' \<or> IsUnderlinedHeader doc (CHR ''='') endPos sc \<or>
             IsUnderlinedHeader doc (CHR ''-'') endPos sc)
           then (SetState SCE_MARKDOWN_LINE_BEGIN sc)\<lparr>freezeCursor := True\<rparr>
         else if Match doc sc [BTICK, BTICK, BTICK] \<and> AtTermStart sc
           then Forward doc (SetState SCE_MARKDOWN_CODE2 sc)
         else if ch sc = BTICK \<and> chNext sc \<noteq> SPC \<and> AtTermStart sc
           then SetState SCE_MARKDOWN_CODE sc
         else if Match doc sc ''**'' \<and> GetRelative doc sc 2 \<noteq> SPC \<and> AtTermStart sc
           then Forward doc (SetState SCE_MARKDOWN_STRONG1 sc)
         else if Match doc sc ''__'' \<and> GetRelative doc sc 2 \<noteq> SPC \<and> AtTermStart sc
           then Forward doc (SetState SCE_MARKDOWN_STRONG2 sc)
         else if Match doc sc ''~~'' \<and> GetRelative doc sc 2 \<noteq> SPC \<and> AtTermStart sc
           then Forward doc (SetState SCE_MARKDOWN_STRIKEOUT sc)
         else if IsNewline (ch sc) then SetState SCE_MARKDOWN_LINE_BEGIN sc
         else sc)
      else sc)"

definition blockquoteReset :: "StyleContext \<Rightarrow> StyleContext" where
  "blockquoteReset sc =
     (if state sc = SCE_MARKDOWN_BLOCKQUOTE then SetState SCE_MARKDOWN_LINE_BEGIN sc else sc)"

definition advance :: "string \<Rightarrow> StyleContext \<Rightarrow> StyleContext" where
  "advance doc sc = (if \<not> freezeCursor sc then Forward doc sc else sc)\<lparr>freezeCursor := False\<rparr>"

text \<open>One iteration of the \<^verbatim>\<open>while (sc.More())\<close> loop.\<close>

definition loopBody :: "string \<Rightarrow> nat \<Rightarrow> StyleContext \<Rightarrow> StyleContext" where
  "loopBody doc endPos sc =
     (if ch sc = BSLASH then Forward doc sc
      else advance doc
             (defaultActions doc endPos
               (linkActions doc
                 (precharActions doc endPos
                   (stateActions doc endPos (blockquoteReset sc))))))"

text \<open>
  The loop may run forever, so it takes fuel: the number of iterations it may still
  make. \<open>None\<close> says that the fuel ran out with the loop still running.
\<close>

fun mainLoop :: "nat \<Rightarrow> string \<Rightarrow> nat \<Rightarrow> StyleContext \<Rightarrow> StyleContext option" where
  "mainLoop 0 doc endPos sc = (if More sc then None else Some sc)"
| "mainLoop (Suc n) doc endPos sc =
     (if More sc then mainLoop n doc endPos (loopBody doc endPos sc) else Some sc)"

text \<open>The cursor at the top of the loop after \<open>k\<close> iterations (or at the loop's exit).\<close>

fun iterations :: "nat \<Rightarrow> string \<Rightarrow> nat \<Rightarrow> StyleContext \<Rightarrow> StyleContext" where
  "iterations 0 doc endPos sc = sc"
| "iterations (Suc k) doc endPos sc =
     (if More sc then iterations k doc endPos (loopBody doc endPos sc) else sc)"

text \<open>
  The head of \<^verbatim>\<open>ColorizeMarkdownDoc\<close>: the start moves back to the start of the
  previous line, where the stored style replaces the caller's, and a style above
  \<^verbatim>\<open>SCE_MARKDOWN_CODEBK\<close> becomes DEFAULT.
\<close>

definition resumePos :: "string \<Rightarrow> nat \<Rightarrow> nat" where
  "resumePos doc startPos =
     (if 0 < startPos then LineStart doc (GetLine doc startPos - 1) else startPos)"

definition resumeStyle :: "string \<Rightarrow> nat list \<Rightarrow> nat \<Rightarrow> nat \<Rightarrow> nat" where
  "resumeStyle doc styles startPos initStyle =
     (let st = (if 0 < startPos then StyleAt styles (resumePos doc startPos) else initStyle)
      in if SCE_MARKDOWN_CODEBK < st then SCE_MARKDOWN_DEFAULT else st)"

definition scanStart :: "string \<Rightarrow> nat list \<Rightarrow> nat \<Rightarrow> nat \<Rightarrow> nat \<Rightarrow> StyleContext" where
  "scanStart doc styles startPos len initStyle =
     StyleContext_init doc (resumePos doc startPos)
       (len + (startPos - resumePos doc startPos))
       (resumeStyle doc styles startPos initStyle)"

definition ColorizeMarkdownDoc ::
    "nat \<Rightarrow> string \<Rightarrow> nat list \<Rightarrow> nat \<Rightarrow> nat \<Rightarrow> nat \<Rightarrow> (nat \<times> nat) list option" where
  "ColorizeMarkdownDoc fuel doc styles startPos len initStyle =
     map_option (\<lambda>sc. spans (Complete sc))
       (mainLoop fuel doc (startPos + len) (scanStart doc styles startPos len initStyle))"

text \<open>
  The styles that a span stream leaves in the buffer: each span colours the positions
  from the end of the span before it (at first, from the start of the scan) up to and
  including its own end offset.
\<close>

fun applySpans :: "nat \<Rightarrow> (nat \<times> nat) list \<Rightarrow> nat list \<Rightarrow> nat list" where
  "applySpans from [] styles = styles"
| "applySpans from ((e, a) # rest) styles =
     applySpans (e + 1) rest
       (map (\<lambda>(i, x). if from \<le> i \<and> i \<le> e then a else x) (zip [0..<length styles] styles))"

section \<open>Notions used to state the properties\<close>

text \<open>
  A span stream covers the offsets from \<open>a\<close> up to \<open>b\<close> (excluded) when its spans,
  each one the offsets from the end of the span before it up to and including its own end
  offset, are non-empty, follow one another without gap or overlap, start at \<open>a\<close> and
  end at \<open>b - 1\<close>.
\<close>

fun covers :: "nat \<Rightarrow> (nat \<times> nat) list \<Rightarrow> nat \<Rightarrow> bool" where
  "covers a [] b = (a = b)"
| "covers a ((e, st) # rest) b = (a \<le> e \<and> covers (e + 1) rest b)"

text \<open>
  The cursor is consistent with the document \<open>doc\<close> and with a scan that started at
  offset \<open>a\<close>: it stands inside the range, the open segment starts at or before it,
  the characters it holds are those of the document, and the spans closed so far cover
  the offsets from \<open>a\<close> up to the start of the open segment.
\<close>

definition cursorOK :: "string \<Rightarrow> nat \<Rightarrow> StyleContext \<Rightarrow> bool" where
  "cursorOK doc a sc =
     (lengthDocument sc = length doc \<and>
      currentPos sc \<le> endPos_sc sc \<and> endPos_sc sc \<le> length doc + 1 \<and>
      startSeg sc \<le> currentPos sc \<and> startSeg sc \<le> length doc \<and>
      (endPos_sc sc \<le> currentPos sc \<or>
         (ch sc = SafeGetCharAt doc (int (currentPos sc)) \<and>
          chNext sc = SafeGetCharAt doc (int (currentPos sc) + 1))) \<and>
      covers a (spans sc) (startSeg sc))"

text \<open>The offset after the last character of the open segment.\<close>

definition segStop :: "StyleContext \<Rightarrow> nat" where
  "segStop sc = (if lengthDocument sc < currentPos sc then currentPos sc - 1 else currentPos sc)"

text \<open>
  The words of the specification for "the previous line has no non-whitespace content",
  on the text of the document alone. Of the characters before the cursor, those after
  the last line-end character belong to the cursor's own line; the line end before them
  is one character, or the two characters CR LF; the previous line is the text between
  that line end and the line-end character before it (or the start of the document). It
  has content when one of its characters is neither a space nor a tab. With no line end
  before the cursor there is no previous line, and no content.
\<close>

definition prevLineText :: "string \<Rightarrow> nat \<Rightarrow> string" where
  "prevLineText doc pos =
     (let before = dropWhile (\<lambda>c. \<not> IsNewline c) (rev (take pos doc));
          body = (if 2 \<le> length before \<and> before ! 0 = LF \<and> before ! 1 = CR
                  then drop 2 before else drop 1 before)
      in rev (takeWhile (\<lambda>c. \<not> IsNewline c) body))"

definition prevLineHasContent :: "string \<Rightarrow> nat \<Rightarrow> bool" where
  "prevLineHasContent doc pos = list_ex (\<lambda>c. \<not> IsASpaceOrTab c) (prevLineText doc pos)"

text \<open>
  The words of the specification for a valid horizontal rule. The run after the marker
  at the cursor is the longest stretch of characters that are the marker, a space or a
  tab (a space or tab that stands at the end offset ends the run); the rule is valid when
  the run reaches a line end or the end offset, the marker occurs at least three times
  (the one at the cursor counted), and the previous line has no content.
\<close>

definition hruleRun :: "string \<Rightarrow> nat \<Rightarrow> char \<Rightarrow> nat \<Rightarrow> nat list" where
  "hruleRun doc endPos m p =
     takeWhile (\<lambda>q. doc ! q = m \<or> (IsASpaceOrTab (doc ! q) \<and> q \<noteq> endPos)) [p..<length doc]"

definition hruleSpec :: "string \<Rightarrow> nat \<Rightarrow> StyleContext \<Rightarrow> bool" where
  "hruleSpec doc endPos sc =
     (let run = hruleRun doc endPos (ch sc) (currentPos sc + 1);
          stop = currentPos sc + 1 + length run
      in (IsNewline (SafeGetCharAt doc (int stop)) \<or> stop = endPos) \<and>
         3 \<le> 1 + length (filter (\<lambda>q. doc ! q = ch sc) run) \<and>
         \<not> prevLineHasContent doc (currentPos sc))"

section \<open>Facts about the cursor\<close>

lemma ColourTo_fields [simp]:
  "state (ColourTo pos attr sc) = state sc"
  "currentPos (ColourTo pos attr sc) = currentPos sc"
  "endPos_sc (ColourTo pos attr sc) = endPos_sc sc"
  "lengthDocument (ColourTo pos attr sc) = lengthDocument sc"
  "ch (ColourTo pos attr sc) = ch sc"
  "chPrev (ColourTo pos attr sc) = chPrev sc"
  "chNext (ColourTo pos attr sc) = chNext sc"
  "atLineStart (ColourTo pos attr sc) = atLineStart sc"
  "atLineEnd (ColourTo pos attr sc) = atLineEnd sc"
  "precharCount (ColourTo pos attr sc) = precharCount sc"
  "isLinkNameDetecting (ColourTo pos attr sc) = isLinkNameDetecting sc"
  "freezeCursor (ColourTo pos attr sc) = freezeCursor sc"
  by (simp_all add: ColourTo_def)

lemma SetState_fields [simp]:
  "state (SetState st sc) = st"
  "currentPos (SetState st sc) = currentPos sc"
  "endPos_sc (SetState st sc) = endPos_sc sc"
  "lengthDocument (SetState st sc) = lengthDocument sc"
  "ch (SetState st sc) = ch sc"
  "chPrev (SetState st sc) = chPrev sc"
  "chNext (SetState st sc) = chNext sc"
  "atLineStart (SetState st sc) = atLineStart sc"
  "atLineEnd (SetState st sc) = atLineEnd sc"
  "precharCount (SetState st sc) = precharCount sc"
  "isLinkNameDetecting (SetState st sc) = isLinkNameDetecting sc"
  "freezeCursor (SetState st sc) = freezeCursor sc"
  by (simp_all add: SetState_def)

lemma segEnd_SetState [simp]: "segEnd (SetState st sc) = segEnd sc"
  by (simp add: segEnd_def)

lemma Forward_fields [simp]:
  "state (Forward doc sc) = state sc"
  "endPos_sc (Forward doc sc) = endPos_sc sc"
  "lengthDocument (Forward doc sc) = lengthDocument sc"
  "startSeg (Forward doc sc) = startSeg sc"
  "spans (Forward doc sc) = spans sc"
  "precharCount (Forward doc sc) = precharCount sc"
  "isLinkNameDetecting (Forward doc sc) = isLinkNameDetecting sc"
  "freezeCursor (Forward doc sc) = freezeCursor sc"
  by (simp_all add: Forward_def)

lemma currentPos_Forward:
  "currentPos (Forward doc sc) =
     (if currentPos sc < endPos_sc sc then currentPos sc + 1 else currentPos sc)"
  by (simp add: Forward_def)

lemma ForwardN_fields [simp]:
  "state (ForwardN doc n sc) = state sc"
  "endPos_sc (ForwardN doc n sc) = endPos_sc sc"
  "lengthDocument (ForwardN doc n sc) = lengthDocument sc"
  "startSeg (ForwardN doc n sc) = startSeg sc"
  "spans (ForwardN doc n sc) = spans sc"
  "precharCount (ForwardN doc n sc) = precharCount sc"
  "isLinkNameDetecting (ForwardN doc n sc) = isLinkNameDetecting sc"
  "freezeCursor (ForwardN doc n sc) = freezeCursor sc"
  by (induction n arbitrary: sc) simp_all

lemma currentPos_ForwardN:
  "currentPos sc \<le> endPos_sc sc \<Longrightarrow>
   currentPos (ForwardN doc n sc) = min (currentPos sc + n) (endPos_sc sc)"
  by (induction n arbitrary: sc) (auto simp: currentPos_Forward)

lemma ChangeState_fields [simp]:
  "state (ChangeState st sc) = st"
  "currentPos (ChangeState st sc) = currentPos sc"
  "endPos_sc (ChangeState st sc) = endPos_sc sc"
  "lengthDocument (ChangeState st sc) = lengthDocument sc"
  "startSeg (ChangeState st sc) = startSeg sc"
  "spans (ChangeState st sc) = spans sc"
  by (simp_all add: ChangeState_def)

lemma FollowToLineEnd_state:
  "state (snd (FollowToLineEnd doc c st endPos sc)) =
     (if fst (FollowToLineEnd doc c st endPos sc) then SCE_MARKDOWN_LINE_BEGIN else state sc)"
  by (simp add: FollowToLineEnd_def Let_def)

lemma IsValidHrule_state:
  "state (snd (IsValidHrule doc endPos sc)) =
     (if fst (IsValidHrule doc endPos sc) then SCE_MARKDOWN_LINE_BEGIN
      else SCE_MARKDOWN_DEFAULT)"
  by (simp add: IsValidHrule_def Let_def split: prod.splits)

section \<open>The classification stays below LINK\<close>

lemma lineBeginActions_state: "state (lineBeginActions doc endPos sc) < SCE_MARKDOWN_LINK"
  by (simp add: lineBeginActions_def FollowToLineEnd_state)

lemma stateActions_state:
  "state sc < SCE_MARKDOWN_LINK \<Longrightarrow> state (stateActions doc endPos sc) < SCE_MARKDOWN_LINK"
  by (simp add: stateActions_def ForwardSetState_def lineBeginActions_state)

lemma precharActions_state:
  "state sc < SCE_MARKDOWN_LINK \<Longrightarrow> state (precharActions doc endPos sc) < SCE_MARKDOWN_LINK"
  by (simp add: precharActions_def precharTail_def IsValidHrule_state)

lemma linkActions_state:
  "state sc < SCE_MARKDOWN_LINK \<Longrightarrow> linkActions doc sc = sc"
  by (simp add: linkActions_def)

lemma defaultActions_state:
  "state sc < SCE_MARKDOWN_LINK \<Longrightarrow> state (defaultActions doc endPos sc) < SCE_MARKDOWN_LINK"
  by (simp add: defaultActions_def)

lemma loopBody_state:
  "state sc < SCE_MARKDOWN_LINK \<Longrightarrow> state (loopBody doc endPos sc) < SCE_MARKDOWN_LINK"
proof -
  assume a: "state sc < SCE_MARKDOWN_LINK"
  have b: "state (blockquoteReset sc) < SCE_MARKDOWN_LINK"
    using a by (simp add: blockquoteReset_def)
  have c: "state (precharActions doc endPos (stateActions doc endPos (blockquoteReset sc)))
             < SCE_MARKDOWN_LINK"
    by (intro precharActions_state stateActions_state b)
  have "state (defaultActions doc endPos (linkActions doc
          (precharActions doc endPos (stateActions doc endPos (blockquoteReset sc)))))
          < SCE_MARKDOWN_LINK"
    by (simp only: linkActions_state [OF c] defaultActions_state [OF c])
  then show ?thesis
    using a by (simp add: loopBody_def advance_def)
qed

lemma iterations_state:
  "state sc < SCE_MARKDOWN_LINK \<Longrightarrow> state (iterations k doc endPos sc) < SCE_MARKDOWN_LINK"
  by (induction k arbitrary: sc) (simp_all add: loopBody_state)

lemma scanStart_state: "state (scanStart doc styles startPos len initStyle) \<le> SCE_MARKDOWN_CODEBK"
  by (simp add: scanStart_def StyleContext_init_def resumeStyle_def Let_def)

section \<open>The cursor stays consistent\<close>

lemma covers_append:
  "covers a xs b \<Longrightarrow> b \<le> e \<Longrightarrow> covers a (xs @ [(e, st)]) (e + 1)"
  by (induction a xs b rule: covers.induct) auto

lemma ColourTo_at:
  assumes "startSeg sc \<le> q"
  shows "ColourTo (int q - 1) attr sc =
           (if q = startSeg sc then sc\<lparr>startSeg := q\<rparr>
            else sc\<lparr>spans := spans sc @ [(q - 1, attr)], startSeg := q\<rparr>)"
proof (cases "q = startSeg sc")
  case True
  then show ?thesis by (simp add: ColourTo_def)
next
  case False
  with assms have "startSeg sc < q" by simp
  then have "nat (int q - 1) = q - 1" "nat (int q - 1) + 1 = q"
    "int q - 1 \<noteq> int (startSeg sc) - 1" "\<not> int q - 1 < int (startSeg sc)"
    by auto
  with False show ?thesis by (simp add: ColourTo_def)
qed

lemma cursorOK_segStop:
  "cursorOK doc a sc \<Longrightarrow> startSeg sc \<le> segStop sc \<and> segStop sc \<le> currentPos sc \<and>
     segStop sc \<le> length doc \<and> segEnd sc = int (segStop sc) - 1"
  by (auto simp: cursorOK_def segStop_def segEnd_def)

lemma cursorOK_ColourTo:
  assumes "cursorOK doc a sc"
  shows "cursorOK doc a (ColourTo (segEnd sc) attr sc)"
proof -
  from cursorOK_segStop [OF assms] have q: "startSeg sc \<le> segStop sc"
    "segStop sc \<le> currentPos sc" "segStop sc \<le> length doc"
    "segEnd sc = int (segStop sc) - 1" by simp_all
  show ?thesis
  proof (cases "segStop sc = startSeg sc")
    case True
    have "ColourTo (segEnd sc) attr sc = sc\<lparr>startSeg := startSeg sc\<rparr>"
      unfolding q(4) ColourTo_at [OF q(1)] using True by simp
    with assms show ?thesis by (simp add: cursorOK_def)
  next
    case False
    with q have lt: "startSeg sc < segStop sc" by simp
    from assms have "covers a (spans sc) (startSeg sc)" by (simp add: cursorOK_def)
    from covers_append [OF this, of "segStop sc - 1" attr] lt
    have c: "covers a (spans sc @ [(segStop sc - 1, attr)]) (segStop sc)" by simp
    have "ColourTo (segEnd sc) attr sc =
            sc\<lparr>spans := spans sc @ [(segStop sc - 1, attr)], startSeg := segStop sc\<rparr>"
      unfolding q(4) ColourTo_at [OF q(1)] using False by simp
    with assms q c show ?thesis by (simp add: cursorOK_def)
  qed
qed

lemma cursorOK_SetState [simp]:
  "cursorOK doc a sc \<Longrightarrow> cursorOK doc a (SetState st sc)"
  using cursorOK_ColourTo [of doc a sc "state sc"]
  by (simp add: SetState_def cursorOK_def)

lemma cursorOK_Complete:
  "cursorOK doc a sc \<Longrightarrow> cursorOK doc a (Complete sc)"
  by (simp add: Complete_def cursorOK_ColourTo)

lemma cursorOK_Forward [simp]:
  "cursorOK doc a sc \<Longrightarrow> cursorOK doc a (Forward doc sc)"
  unfolding cursorOK_def Forward_def
  by (auto simp: add.commute)

lemma cursorOK_ForwardN [simp]:
  "cursorOK doc a sc \<Longrightarrow> cursorOK doc a (ForwardN doc n sc)"
  by (induction n arbitrary: sc) simp_all

lemma cursorOK_ChangeState [simp]:
  "cursorOK doc a sc \<Longrightarrow> cursorOK doc a (ChangeState st sc)"
  by (simp add: cursorOK_def ChangeState_def)

lemma cursorOK_locals [simp]:
  "cursorOK doc a (sc\<lparr>precharCount := n\<rparr>) = cursorOK doc a sc"
  "cursorOK doc a (sc\<lparr>isLinkNameDetecting := b\<rparr>) = cursorOK doc a sc"
  "cursorOK doc a (sc\<lparr>freezeCursor := b\<rparr>) = cursorOK doc a sc"
  by (simp_all add: cursorOK_def)

lemma cursorOK_FollowToLineEnd [simp]:
  "cursorOK doc a sc \<Longrightarrow> cursorOK doc a (snd (FollowToLineEnd doc c st endPos sc))"
  by (simp add: FollowToLineEnd_def Let_def)

lemma cursorOK_IsValidHrule [simp]:
  "cursorOK doc a sc \<Longrightarrow> cursorOK doc a (snd (IsValidHrule doc endPos sc))"
  by (simp add: IsValidHrule_def Let_def split: prod.splits)

lemma cursorOK_lineBeginActions [simp]:
  "cursorOK doc a sc \<Longrightarrow> cursorOK doc a (lineBeginActions doc endPos sc)"
  by (simp add: lineBeginActions_def)

lemma cursorOK_stateActions [simp]:
  "cursorOK doc a sc \<Longrightarrow> cursorOK doc a (stateActions doc endPos sc)"
  by (simp add: stateActions_def ForwardSetState_def)

lemma cursorOK_precharActions [simp]:
  "cursorOK doc a sc \<Longrightarrow> cursorOK doc a (precharActions doc endPos sc)"
  by (simp add: precharActions_def precharTail_def)

lemma cursorOK_linkActions [simp]:
  "cursorOK doc a sc \<Longrightarrow> cursorOK doc a (linkActions doc sc)"
  by (simp add: linkActions_def)

lemma cursorOK_defaultActions [simp]:
  "cursorOK doc a sc \<Longrightarrow> cursorOK doc a (defaultActions doc endPos sc)"
  by (simp add: defaultActions_def)

lemma cursorOK_loopBody:
  "cursorOK doc a sc \<Longrightarrow> cursorOK doc a (loopBody doc endPos sc)"
  by (simp add: loopBody_def advance_def blockquoteReset_def)

lemma cursorOK_iterations:
  "cursorOK doc a sc \<Longrightarrow> cursorOK doc a (iterations k doc endPos sc)"
  by (induction k arbitrary: sc) (simp_all add: cursorOK_loopBody)

lemma mainLoop_result:
  "mainLoop n doc endPos sc = Some r \<Longrightarrow> \<exists>k. r = iterations k doc endPos sc \<and> \<not> More r"
proof (induction n arbitrary: sc)
  case 0
  then have "r = iterations 0 doc endPos sc \<and> \<not> More r"
    by (auto split: if_splits)
  then show ?case by blast
next
  case (Suc n)
  show ?case
  proof (cases "More sc")
    case True
    with Suc.prems have "mainLoop n doc endPos (loopBody doc endPos sc) = Some r" by simp
    from Suc.IH [OF this] obtain k
      where "r = iterations k doc endPos (loopBody doc endPos sc)" "\<not> More r" by blast
    with True have "r = iterations (Suc k) doc endPos sc \<and> \<not> More r" by simp
    then show ?thesis by blast
  next
    case False
    with Suc.prems have "r = iterations 0 doc endPos sc \<and> \<not> More r" by simp
    then show ?thesis by blast
  qed
qed

lemma startSeg_ColourTo:
  "cursorOK doc a sc \<Longrightarrow> startSeg (ColourTo (segEnd sc) attr sc) = segStop sc"
  using cursorOK_segStop [of doc a sc] by (simp add: ColourTo_at)

lemma endPos_sc_predicates [simp]:
  "endPos_sc (snd (FollowToLineEnd doc c st endPos sc)) = endPos_sc sc"
  "endPos_sc (snd (IsValidHrule doc endPos sc)) = endPos_sc sc"
  by (simp_all add: FollowToLineEnd_def IsValidHrule_def Let_def split: prod.splits)

lemma endPos_sc_lineBeginActions [simp]:
  "endPos_sc (lineBeginActions doc endPos sc) = endPos_sc sc"
  by (simp add: lineBeginActions_def)

lemma endPos_sc_stateActions [simp]:
  "endPos_sc (stateActions doc endPos sc) = endPos_sc sc"
  by (simp add: stateActions_def ForwardSetState_def)

lemma endPos_sc_precharActions [simp]:
  "endPos_sc (precharActions doc endPos sc) = endPos_sc sc"
  by (simp add: precharActions_def precharTail_def)

lemma endPos_sc_linkActions [simp]: "endPos_sc (linkActions doc sc) = endPos_sc sc"
  by (simp add: linkActions_def)

lemma endPos_sc_defaultActions [simp]:
  "endPos_sc (defaultActions doc endPos sc) = endPos_sc sc"
  by (simp add: defaultActions_def)

lemma endPos_sc_loopBody [simp]: "endPos_sc (loopBody doc endPos sc) = endPos_sc sc"
  by (simp add: loopBody_def advance_def blockquoteReset_def)

lemma endPos_sc_iterations [simp]: "endPos_sc (iterations k doc endPos sc) = endPos_sc sc"
  by (induction k arbitrary: sc) simp_all

section \<open>Lines\<close>

lemma lineStartsFrom_gt: "\<forall>x \<in> set (lineStartsFrom p cs). p < x"
proof (induction p cs rule: lineStartsFrom.induct)
  case (3 p c d cs)
  have "\<forall>x \<in> set (lineStartsFrom (p + 1) (d # cs)). p < x"
  proof (cases "IsNewline c")
    case True
    with 3 show ?thesis by (cases "c = CR \<and> d = LF") (auto dest: Suc_lessD)
  next
    case False
    with 3 show ?thesis by (auto simp: IsNewline_def dest: Suc_lessD)
  qed
  then show ?case by simp
qed simp_all

lemma lineStartsFrom_sorted: "sorted (lineStartsFrom p cs)"
proof (induction p cs rule: lineStartsFrom.induct)
  case (3 p c d cs)
  then show ?case
    using lineStartsFrom_gt [of "p + 1" "d # cs"] by (auto simp: less_imp_le)
qed simp_all

lemma lineStarts_sorted: "sorted (lineStarts doc)"
  using lineStartsFrom_gt [of 0 doc] by (auto simp: lineStarts_def lineStartsFrom_sorted)

lemma sorted_filter_le_nth:
  "sorted xs \<Longrightarrow> i < length (filter (\<lambda>s. s \<le> pos) xs) \<Longrightarrow> xs ! i \<le> (pos::nat)"
proof (induction xs arbitrary: i)
  case Nil
  then show ?case by simp
next
  case (Cons x xs)
  show ?case
  proof (cases "x \<le> pos")
    case True
    with Cons show ?thesis by (cases i) auto
  next
    case False
    with Cons.prems(1) have "filter (\<lambda>s. s \<le> pos) xs = []"
      by (auto simp: filter_empty_conv)
    with False Cons.prems(2) show ?thesis by simp
  qed
qed

lemma resumePos_le: "resumePos doc startPos \<le> startPos"
proof (cases "0 < startPos \<and> 0 \<le> GetLine doc startPos - 1")
  case True
  define g where "g = length (filter (\<lambda>s. s \<le> startPos) (lineStarts doc))"
  from True have g: "2 \<le> g" "nat (GetLine doc startPos - 1) = g - 2"
    by (auto simp: GetLine_def g_def)
  have "g \<le> length (lineStarts doc)" by (simp add: g_def)
  with g have lt: "g - 2 < length (lineStarts doc)" "g - 2 < g" by auto
  from sorted_filter_le_nth [OF lineStarts_sorted, of "g - 2" startPos doc] lt(2)
  have "lineStarts doc ! (g - 2) \<le> startPos" by (simp add: g_def)
  with True g lt show ?thesis by (simp add: resumePos_def LineStart_def)
next
  case False
  then show ?thesis by (auto simp: resumePos_def LineStart_def)
qed

lemma cursorOK_scanStart:
  assumes "startPos + len \<le> length doc"
  shows "cursorOK doc (resumePos doc startPos) (scanStart doc styles startPos len initStyle)"
  using assms resumePos_le [of doc startPos]
  by (simp add: cursorOK_def scanStart_def StyleContext_init_def)

lemma endPos_sc_scanStart:
  "endPos_sc (scanStart doc styles startPos len initStyle) =
     (if startPos + len = length doc then startPos + len + 1 else startPos + len)"
  using resumePos_le [of doc startPos]
  by (simp add: scanStart_def StyleContext_init_def)

section \<open>Coverage of a scan that returns\<close>

text \<open>
  When the scan of a range inside the document returns, its spans cover the effective
  range: the offsets from the start of the line before the requested start up to the
  requested end.
\<close>

lemma coverage_of_returned_scan:
  assumes range: "startPos + len \<le> length doc"
    and ret: "ColorizeMarkdownDoc fuel doc styles startPos len initStyle = Some sp"
  shows "covers (resumePos doc startPos) sp (startPos + len)"
proof -
  let ?s0 = "scanStart doc styles startPos len initStyle"
  from ret obtain r where r: "mainLoop fuel doc (startPos + len) ?s0 = Some r"
    and sp: "sp = spans (Complete r)"
    by (auto simp: ColorizeMarkdownDoc_def)
  from mainLoop_result [OF r] obtain k
    where k: "r = iterations k doc (startPos + len) ?s0" and stop: "\<not> More r" by blast
  have ok: "cursorOK doc (resumePos doc startPos) r"
    unfolding k by (rule cursorOK_iterations [OF cursorOK_scanStart [OF range]])
  have e: "endPos_sc r = (if startPos + len = length doc then startPos + len + 1 else startPos + len)"
    unfolding k by (simp add: endPos_sc_scanStart)
  from ok stop have pos: "currentPos r = endPos_sc r"
    by (simp add: cursorOK_def More_def)
  from ok have len: "lengthDocument r = length doc" by (simp add: cursorOK_def)
  from pos e len range have stop_at: "segStop r = startPos + len"
    by (auto simp: segStop_def)
  from cursorOK_Complete [OF ok]
  have "covers (resumePos doc startPos) (spans (Complete r)) (startSeg (Complete r))"
    by (simp add: cursorOK_def)
  with startSeg_ColourTo [OF ok, of "state r"] stop_at sp show ?thesis
    by (simp add: Complete_def)
qed

section \<open>What an iteration adds to the span stream\<close>

lemma spans_SetState:
  "cursorOK doc a sc \<Longrightarrow>
   spans (SetState st sc) =
     (if startSeg sc = segStop sc then spans sc
      else spans sc @ [(segStop sc - 1, state sc)])"
  using cursorOK_segStop [of doc a sc] by (simp add: SetState_def ColourTo_at)

lemma startSeg_SetState:
  "cursorOK doc a sc \<Longrightarrow> startSeg (SetState st sc) = segStop sc"
  using cursorOK_segStop [of doc a sc] by (simp add: SetState_def ColourTo_at)

lemma segStop_SetState [simp]: "segStop (SetState st sc) = segStop sc"
  by (simp add: segStop_def)

lemma segStop_locals [simp]:
  "segStop (sc\<lparr>precharCount := n\<rparr>) = segStop sc"
  "segStop (sc\<lparr>isLinkNameDetecting := b\<rparr>) = segStop sc"
  "segStop (sc\<lparr>freezeCursor := b\<rparr>) = segStop sc"
  by (simp_all add: segStop_def)

lemma cursorOK_in_doc:
  "cursorOK doc a sc \<Longrightarrow> More sc \<Longrightarrow> ch sc \<noteq> NUL \<Longrightarrow> currentPos sc < length doc"
  by (auto simp: cursorOK_def More_def SafeGetCharAt_def split: if_splits)

lemma segStop_More:
  "cursorOK doc a sc \<Longrightarrow> More sc \<Longrightarrow> segStop sc = currentPos sc"
  by (auto simp: cursorOK_def More_def segStop_def)


lemma spans_advance [simp]: "spans (advance doc sc) = spans sc"
  by (simp add: advance_def)

lemma state_advance [simp]: "state (advance doc sc) = state sc"
  by (simp add: advance_def)



section \<open>The previous line\<close>

text \<open>
  \<^verbatim>\<open>HasPrevLineContent\<close> computes what the words above say, for every document and
  every cursor.
\<close>

lemma backToNewline_clip:
  "backToNewline doc (int n - 1) = backToNewline doc (int (min n (length doc)) - 1)"
proof (induction n)
  case 0
  then show ?case by simp
next
  case (Suc n)
  show ?case
  proof (cases "n < length doc")
    case True
    then show ?thesis by (simp add: min_def)
  next
    case False
    then have "SafeGetCharAt doc (int n) = NUL" by (simp add: SafeGetCharAt_def)
    then have "backToNewline doc (int n) = backToNewline doc (int n - 1)"
      by (subst backToNewline.simps) (simp add: IsNewline_def)
    with Suc False show ?thesis by (simp add: min_def)
  qed
qed

lemma backToNewline_list:
  "n \<le> length doc \<Longrightarrow>
   backToNewline doc (int n - 1) =
     int (length (dropWhile (\<lambda>c. \<not> IsNewline c) (rev (take n doc)))) - 1"
proof (induction n)
  case 0
  then show ?case by (subst backToNewline.simps) simp
next
  case (Suc n)
  then have n: "n < length doc" by simp
  then have c: "SafeGetCharAt doc (int n) = doc ! n" by (simp add: SafeGetCharAt_def)
  from n have t: "take (Suc n) doc = take n doc @ [doc ! n]" by (rule take_Suc_conv_app_nth)
  show ?case
  proof (cases "IsNewline (doc ! n)")
    case True
    with c have "backToNewline doc (int n) = int n"
      by (subst backToNewline.simps) simp
    with True n show ?thesis by (simp add: t)
  next
    case False
    with c have "backToNewline doc (int n) = backToNewline doc (int n - 1)"
      by (subst backToNewline.simps) simp
    with False Suc show ?thesis by (simp add: t)
  qed
qed

lemma contentBack_neg: "q < 0 \<Longrightarrow> contentBack doc q = False"
  by (subst contentBack.simps) simp

lemma contentBack_list:
  "n \<le> length doc \<Longrightarrow>
   contentBack doc (int n - 1) =
     list_ex (\<lambda>c. \<not> IsASpaceOrTab c) (takeWhile (\<lambda>c. \<not> IsNewline c) (rev (take n doc)))"
proof (induction n)
  case 0
  then show ?case by (simp add: contentBack_neg)
next
  case (Suc n)
  then have n: "n < length doc" by simp
  then have c: "SafeGetCharAt doc (int n) = doc ! n" by (simp add: SafeGetCharAt_def)
  from n have t: "take (Suc n) doc = take n doc @ [doc ! n]" by (rule take_Suc_conv_app_nth)
  have "contentBack doc (int n) =
      (if IsNewline (doc ! n) then False
       else if \<not> IsASpaceOrTab (doc ! n) then True else contentBack doc (int n - 1))"
    by (subst contentBack.simps) (simp add: c)
  with Suc n show ?case by (simp add: t)
qed

lemma suffix_of_rev:
  "dropWhile P (rev xs) = rev (take (length (dropWhile P (rev xs))) xs)"
proof -
  have "rev xs = takeWhile P (rev xs) @ dropWhile P (rev xs)" by simp
  then have "xs = rev (dropWhile P (rev xs)) @ rev (takeWhile P (rev xs))"
    by (metis rev_append rev_rev_ident)
  then have "take (length (dropWhile P (rev xs))) xs = rev (dropWhile P (rev xs))"
    by (metis append_eq_conv_conj length_rev)
  then show ?thesis by simp
qed

lemma SafeGetCharAt_nat: "i < length doc \<Longrightarrow> SafeGetCharAt doc (int i) = doc ! i"
  by (simp add: SafeGetCharAt_def)

lemma HasPrevLineContent_words:
  "HasPrevLineContent doc sc = prevLineHasContent doc (currentPos sc)"
proof -
  define n where "n = min (currentPos sc) (length doc)"
  define before where "before = dropWhile (\<lambda>c. \<not> IsNewline c) (rev (take n doc))"
  define m where "m = length before"
  have n: "n \<le> length doc" by (simp add: n_def)
  have tk: "take (currentPos sc) doc = take n doc" by (simp add: n_def min_def)
  have "backToNewline doc (int (currentPos sc) - 1) = backToNewline doc (int n - 1)"
    unfolding n_def by (rule backToNewline_clip)
  also have "\<dots> = int m - 1"
    unfolding m_def before_def by (rule backToNewline_list [OF n])
  finally have q: "backToNewline doc (int (currentPos sc) - 1) = int m - 1" .
  have mn: "m \<le> n"
    unfolding m_def before_def using length_dropWhile_le [of _ "rev (take n doc)"] n by simp
  have before: "before = rev (take m doc)"
  proof -
    have "before = rev (take m (take n doc))"
      unfolding m_def before_def by (rule suffix_of_rev)
    with mn show ?thesis by (simp add: min_def)
  qed
  have m_doc: "m \<le> length doc" using mn n by simp
  have at0: "1 \<le> m \<Longrightarrow> before ! 0 = doc ! (m - 1)"
    using m_doc by (simp add: before rev_nth)
  have at1: "2 \<le> m \<Longrightarrow> before ! 1 = doc ! (m - 2)"
    using m_doc by (simp add: before rev_nth numeral_2_eq_2)
  have crlf: "(SafeGetCharAt doc (int m - 1 - 1) = CR \<and> SafeGetCharAt doc (int m - 1) = LF) =
              (2 \<le> length before \<and> before ! 0 = LF \<and> before ! 1 = CR)"
  proof (cases "2 \<le> m")
    case True
    then have e: "int (m - 1) - 1 = int (m - 2)" "int m - 1 = int (m - 1)" by simp_all
    from True m_doc have r: "m - 2 < length doc" "m - 1 < length doc" by simp_all
    have s1: "SafeGetCharAt doc (int (m - 2)) = doc ! (m - 2)"
      by (rule SafeGetCharAt_nat [OF r(1)])
    have s2: "SafeGetCharAt doc (int (m - 1)) = doc ! (m - 1)"
      by (rule SafeGetCharAt_nat [OF r(2)])
    from True have l: "2 \<le> length before" by (simp add: m_def)
    from True have "1 \<le> m" by simp
    note a0 = at0 [OF this] and a1 = at1 [OF True]
    have lhs: "(SafeGetCharAt doc (int m - 1 - 1) = CR \<and> SafeGetCharAt doc (int m - 1) = LF) =
               (doc ! (m - 2) = CR \<and> doc ! (m - 1) = LF)"
      by (simp only: e s1 s2)
    have rhs: "(2 \<le> length before \<and> before ! 0 = LF \<and> before ! 1 = CR) =
               (doc ! (m - 1) = LF \<and> doc ! (m - 2) = CR)"
      by (simp only: l a0 a1 simp_thms)
    show ?thesis unfolding lhs rhs by (rule conj_commute)
  next
    case False
    then have "SafeGetCharAt doc (int m - 1 - 1) = NUL" by (simp add: SafeGetCharAt_def)
    with False show ?thesis by (simp add: m_def [symmetric])
  qed
  have d2: "drop 2 before = rev (take (m - 2) doc)"
    using m_doc by (simp add: before drop_rev)
  have d1: "drop 1 before = rev (take (m - 1) doc)"
    using m_doc by (simp add: before drop_rev)
  have c2: "2 \<le> m \<Longrightarrow> contentBack doc (int m - 1 - 1 - 1) =
      list_ex (\<lambda>c. \<not> IsASpaceOrTab c) (takeWhile (\<lambda>c. \<not> IsNewline c) (drop 2 before))"
  proof -
    assume "2 \<le> m"
    then have e: "int m - 1 - 1 - 1 = int (m - 2) - 1" by simp
    from m_doc have "m - 2 \<le> length doc" by simp
    then show ?thesis unfolding e d2 by (rule contentBack_list)
  qed
  have c1: "contentBack doc (int m - 1 - 1) =
      list_ex (\<lambda>c. \<not> IsASpaceOrTab c) (takeWhile (\<lambda>c. \<not> IsNewline c) (drop 1 before))"
  proof (cases "1 \<le> m")
    case True
    then have e: "int m - 1 - 1 = int (m - 1) - 1" by simp
    from m_doc have "m - 1 \<le> length doc" by simp
    then show ?thesis unfolding e d1 by (rule contentBack_list)
  next
    case False
    then have "m = 0" by simp
    then have "before = []" by (simp add: m_def)
    with \<open>m = 0\<close> show ?thesis by (simp add: contentBack_neg)
  qed
  define C where "C = (2 \<le> length before \<and> before ! 0 = LF \<and> before ! 1 = CR)"
  have L: "HasPrevLineContent doc sc =
      contentBack doc ((if C then int m - 1 - 1 else int m - 1) - 1)"
    unfolding HasPrevLineContent_def Let_def q crlf C_def ..
  have R: "prevLineHasContent doc (currentPos sc) =
      list_ex (\<lambda>c. \<not> IsASpaceOrTab c)
        (takeWhile (\<lambda>c. \<not> IsNewline c) (if C then drop 2 before else drop 1 before))"
    unfolding prevLineHasContent_def prevLineText_def Let_def tk before_def [symmetric]
      C_def [symmetric]
    by (simp only: list_ex_iff set_rev)
  show ?thesis
  proof (cases C)
    case True
    then have "2 \<le> m" by (simp add: C_def m_def)
    from c2 [OF this] True show ?thesis by (simp only: L R if_True)
  next
    case False
    with c1 show ?thesis by (simp only: L R if_False)
  qed
qed

section \<open>Running the loop\<close>

lemma scanStart_at_0:
  "scanStart doc styles 0 len st = scanStart doc [] 0 len st"
  by (simp add: scanStart_def resumePos_def resumeStyle_def)

lemma iterations_not_More: "\<not> More sc \<Longrightarrow> iterations k doc endPos sc = sc"
  by (cases k) simp_all

lemma iterations_add:
  "iterations (j + k) doc endPos sc = iterations k doc endPos (iterations j doc endPos sc)"
  by (induction j arbitrary: sc) (simp_all add: iterations_not_More)

lemma iterations_fixed:
  "loopBody doc endPos sc = sc \<Longrightarrow> iterations k doc endPos sc = sc"
  by (induction k) simp_all

lemma mainLoop_fixed:
  "More sc \<Longrightarrow> loopBody doc endPos sc = sc \<Longrightarrow> mainLoop n doc endPos sc = None"
  by (induction n) simp_all

lemma mainLoop_cycle:
  "More (iterations j doc endPos sc) \<Longrightarrow>
   loopBody doc endPos (iterations j doc endPos sc) = iterations j doc endPos sc \<Longrightarrow>
   mainLoop n doc endPos sc = None"
proof (induction j arbitrary: sc n)
  case 0
  then show ?case by (simp add: mainLoop_fixed)
next
  case (Suc j)
  show ?case
  proof (cases "More sc")
    case True
    with Suc.prems have a: "More (iterations j doc endPos (loopBody doc endPos sc))"
      and b: "loopBody doc endPos (iterations j doc endPos (loopBody doc endPos sc)) =
              iterations j doc endPos (loopBody doc endPos sc)"
      by simp_all
    show ?thesis
    proof (cases n)
      case 0
      with True show ?thesis by simp
    next
      case (Suc m)
      with True Suc.IH [OF a b] show ?thesis by simp
    qed
  next
    case False
    with Suc.prems show ?thesis by simp
  qed
qed

lemma mainLoop_not_More: "\<not> More sc \<Longrightarrow> mainLoop k doc endPos sc = Some sc"
  by (cases k) simp_all

lemma mainLoop_mono:
  "mainLoop n doc endPos sc = Some r \<Longrightarrow> mainLoop (n + k) doc endPos sc = Some r"
  by (induction n arbitrary: sc) (auto simp: mainLoop_not_More split: if_splits)

text \<open>A scan that returns with some fuel returns the same spans with any more fuel.\<close>

lemma ColorizeMarkdownDoc_fuel:
  "ColorizeMarkdownDoc n doc styles startPos len initStyle = Some sp \<Longrightarrow>
   ColorizeMarkdownDoc (n + k) doc styles startPos len initStyle = Some sp"
  by (auto simp: ColorizeMarkdownDoc_def dest: mainLoop_mono)

section \<open>Forward progress\<close>

text \<open>
  The document \<open>=a\<close>, newline, \<open>---\<close>, newline, scanned from offset 0 in DEFAULT. At
  offset 0 the DEFAULT rules see a line start and an underlined header (the next line is
  a run of \<open>-\<close>), reopen LINE_BEGIN and hold the cursor. The LINE_BEGIN rules then take
  the branch \<^verbatim>\<open>sc.ch == '='\<close> (the line is not underlined with \<open>=\<close>), which opens
  DEFAULT, since there is no previous line; the DEFAULT rules of the same iteration
  reopen LINE_BEGIN and hold the cursor again. The second iteration ends in the state it
  started in.
\<close>

lemma hang_cycle:
  "More (iterations 1 (''=a'' @ [LF] @ ''---'' @ [LF]) 7
           (scanStart (''=a'' @ [LF] @ ''---'' @ [LF]) [] 0 7 0))"
  "loopBody (''=a'' @ [LF] @ ''---'' @ [LF]) 7
     (iterations 1 (''=a'' @ [LF] @ ''---'' @ [LF]) 7
        (scanStart (''=a'' @ [LF] @ ''---'' @ [LF]) [] 0 7 0)) =
   iterations 1 (''=a'' @ [LF] @ ''---'' @ [LF]) 7
     (scanStart (''=a'' @ [LF] @ ''---'' @ [LF]) [] 0 7 0)"
  by code_simp+

lemma hang_pos:
  "currentPos (iterations 0 (''=a'' @ [LF] @ ''---'' @ [LF]) 7
     (scanStart (''=a'' @ [LF] @ ''---'' @ [LF]) [] 0 7 0)) = 0"
  "currentPos (iterations 1 (''=a'' @ [LF] @ ''---'' @ [LF]) 7
     (scanStart (''=a'' @ [LF] @ ''---'' @ [LF]) [] 0 7 0)) = 0"
  by code_simp+

lemma hang_iterations:
  "currentPos (iterations k (''=a'' @ [LF] @ ''---'' @ [LF]) 7
     (scanStart (''=a'' @ [LF] @ ''---'' @ [LF]) [] 0 7 0)) = 0"
proof (cases k)
  case 0
  then show ?thesis using hang_pos(1) by simp
next
  case (Suc m)
  have "iterations (1 + m) (''=a'' @ [LF] @ ''---'' @ [LF]) 7
          (scanStart (''=a'' @ [LF] @ ''---'' @ [LF]) [] 0 7 0) =
        iterations 1 (''=a'' @ [LF] @ ''---'' @ [LF]) 7
          (scanStart (''=a'' @ [LF] @ ''---'' @ [LF]) [] 0 7 0)"
    by (subst iterations_add) (rule iterations_fixed [OF hang_cycle(2)])
  with Suc hang_pos(2) show ?thesis by simp
qed

text \<open>
  C9 (forward progress: the main loop terminates for every document and range, and the
  no-advance step is taken at most once per position). On the seven characters \<open>=a\<close>,
  newline, \<open>---\<close>, newline, scanned as a fresh document, the loop does not return
  whatever the number of iterations it is given, and after any number of iterations the
  cursor is still at offset 0: the no-advance step is taken in every iteration.
\<close>

theorem forward_progress_fails:
  "ColorizeMarkdownDoc fuel (''=a'' @ [LF] @ ''---'' @ [LF]) styles 0 7 SCE_MARKDOWN_DEFAULT = None \<and>
   currentPos (iterations k (''=a'' @ [LF] @ ''---'' @ [LF]) 7
     (scanStart (''=a'' @ [LF] @ ''---'' @ [LF]) styles 0 7 SCE_MARKDOWN_DEFAULT)) = 0"
  unfolding ColorizeMarkdownDoc_def
  by (subst (1 2) scanStart_at_0)
     (simp only: add_0 mainLoop_cycle [OF hang_cycle] hang_iterations option.map)

section \<open>Coverage: a scan that stalls\<close>

text \<open>
  The document \<open>a\<close>, newline, \<open>~~~\<close>, newline, \<open>===\<close>, newline. At offset 2 the
  LINE_BEGIN rules match \<open>~~~\<close> before they test for an underlined header; the previous
  line has content, so they open DEFAULT; the DEFAULT rules see a line start underlined
  with \<open>=\<close>, reopen LINE_BEGIN and hold the cursor, in every iteration from the third.
\<close>

lemma stall_cycle:
  "More (iterations 3 (''a'' @ [LF] @ ''~~~'' @ [LF] @ ''==='' @ [LF]) 10
           (scanStart (''a'' @ [LF] @ ''~~~'' @ [LF] @ ''==='' @ [LF]) [] 0 10 0))"
  "loopBody (''a'' @ [LF] @ ''~~~'' @ [LF] @ ''==='' @ [LF]) 10
     (iterations 3 (''a'' @ [LF] @ ''~~~'' @ [LF] @ ''==='' @ [LF]) 10
        (scanStart (''a'' @ [LF] @ ''~~~'' @ [LF] @ ''==='' @ [LF]) [] 0 10 0)) =
   iterations 3 (''a'' @ [LF] @ ''~~~'' @ [LF] @ ''==='' @ [LF]) 10
     (scanStart (''a'' @ [LF] @ ''~~~'' @ [LF] @ ''==='' @ [LF]) [] 0 10 0)"
  by code_simp+

lemma stall_spans:
  "spans (iterations 3 (''a'' @ [LF] @ ''~~~'' @ [LF] @ ''==='' @ [LF]) 10
     (scanStart (''a'' @ [LF] @ ''~~~'' @ [LF] @ ''==='' @ [LF]) [] 0 10 0)) = [(0, 0), (1, 1)]"
  "currentPos (iterations 3 (''a'' @ [LF] @ ''~~~'' @ [LF] @ ''==='' @ [LF]) 10
     (scanStart (''a'' @ [LF] @ ''~~~'' @ [LF] @ ''==='' @ [LF]) [] 0 10 0)) = 2"
  by code_simp+

text \<open>
  C7 (coverage: the emitted spans are contiguous and cover exactly the effective range).
  On this document the scan of the range from 0 to 10 never returns, and after any number
  of iterations from the third on the spans emitted are the two that end at offsets 0 and
  1: offsets 2 to 9 of the range are never covered.
\<close>

theorem coverage_fails:
  "ColorizeMarkdownDoc fuel (''a'' @ [LF] @ ''~~~'' @ [LF] @ ''==='' @ [LF]) styles 0 10
     SCE_MARKDOWN_DEFAULT = None \<and>
   spans (iterations (3 + k) (''a'' @ [LF] @ ''~~~'' @ [LF] @ ''==='' @ [LF]) 10
     (scanStart (''a'' @ [LF] @ ''~~~'' @ [LF] @ ''==='' @ [LF]) styles 0 10
        SCE_MARKDOWN_DEFAULT)) = [(0, SCE_MARKDOWN_DEFAULT), (1, SCE_MARKDOWN_LINE_BEGIN)]"
  unfolding ColorizeMarkdownDoc_def
  by (subst (1 2) scanStart_at_0)
     (simp only: add_0 mainLoop_cycle [OF stall_cycle] iterations_add
        iterations_fixed [OF stall_cycle(2)] stall_spans option.map)

section \<open>Escapes\<close>

text \<open>
  C2 (escape universality: the character after a backslash keeps the classification in
  effect before the backslash and never triggers a marker rule). The escape rule moves
  the cursor past the backslash only, and the next iteration offers the character after
  it to every rule (the source's comment is "Skip past escaped characters"). In
  \<open>x\<close>, newline, backslash, \<open># y\<close> the escaped \<open>#\<close> at offset 3 opens HEADER1, where
  LINE_BEGIN was in effect before the backslash; in the code span of backtick, \<open>a\<close>,
  backslash, backtick, \<open>b\<close>, backtick, the escaped backtick at offset 3 closes the span.
\<close>

theorem escape_triggers_rules:
  "ColorizeMarkdownDoc 10 (''x'' @ [LF, BSLASH] @ ''# y'') [] 0 6 SCE_MARKDOWN_DEFAULT =
     Some [(0, SCE_MARKDOWN_DEFAULT), (2, SCE_MARKDOWN_LINE_BEGIN), (5, SCE_MARKDOWN_HEADER1)] \<and>
   ColorizeMarkdownDoc 10 ([BTICK] @ ''a'' @ [BSLASH, BTICK] @ ''b'' @ [BTICK]) [] 0 6
     SCE_MARKDOWN_DEFAULT =
     Some [(3, SCE_MARKDOWN_CODE), (5, SCE_MARKDOWN_DEFAULT)]"
  by code_simp

section \<open>Code blocks\<close>

text \<open>
  With CODEBK open, the chain of state tests is its first test of CODEBK: the block stays
  open or closes to LINE_BEGIN, and the rule for a closing fence is never applied.
\<close>

lemma codebk_first_test_wins:
  "state sc = SCE_MARKDOWN_CODEBK \<Longrightarrow>
   stateActions doc endPos sc =
     (if atLineStart sc \<and> ch sc \<noteq> TAB \<and>
         \<not> list_all (\<lambda>i. GetRelative doc sc i = SPC) [0, 1, 2, 3]
      then SetState SCE_MARKDOWN_LINE_BEGIN sc else sc)"
  by (simp add: stateActions_def)

text \<open>
  C4 (a CODEBK block closes to LINE_BEGIN on a line that does not begin with four spaces
  or a tab, and the fenced variant closes on a line starting with \<open>~~~\<close>, scanning to
  the end of that line and reopening DEFAULT). The chain of state tests reaches its
  second test of CODEBK never, the first one being taken: in the fenced block below the
  closing fence at offsets 14 to 16 is not scanned to its end as code; its first
  character closes the block to LINE_BEGIN as any unindented line does, and the other
  two are DEFAULT text.
\<close>

theorem fence_never_closes_codebk:
  "ColorizeMarkdownDoc 30
     ([LF] @ ''~~~'' @ [LF] @ ''    code'' @ [LF] @ ''~~~'' @ [LF] @ ''after'' @ [LF]) [] 0 24
     SCE_MARKDOWN_DEFAULT =
   Some [(0, SCE_MARKDOWN_LINE_BEGIN), (13, SCE_MARKDOWN_CODEBK), (14, SCE_MARKDOWN_LINE_BEGIN),
         (16, SCE_MARKDOWN_DEFAULT), (17, SCE_MARKDOWN_LINE_BEGIN), (22, SCE_MARKDOWN_DEFAULT),
         (23, SCE_MARKDOWN_LINE_BEGIN)]"
  by code_simp

section \<open>LINK is never the active classification\<close>

text \<open>
  C10 (LINK unreachability: in every scan call the classification LINK is never the
  active state at any loop iteration). Whatever the document, the stored styles, the
  range and the initial style the caller passes, the classification at the top of the
  loop after any number \<open>k\<close> of iterations is not LINK: the head of the scan resets
  a style above CODEBK to DEFAULT, and no rule opens LINK.
\<close>

theorem link_never_active:
  "state (iterations k doc (startPos + len) (scanStart doc styles startPos len initStyle))
     \<noteq> SCE_MARKDOWN_LINK"
proof -
  have "state (scanStart doc styles startPos len initStyle) < SCE_MARKDOWN_LINK"
    using scanStart_state [of doc styles startPos len initStyle] by simp
  from iterations_state [OF this, of k doc "startPos + len"] show ?thesis by simp
qed

section \<open>Closing a code span\<close>







section \<open>Blockquote re-entry\<close>







section \<open>Horizontal rules\<close>

lemma hruleRun_step:
  "p < length doc \<Longrightarrow>
   hruleRun doc endPos m p =
     (if doc ! p = m \<or> (IsASpaceOrTab (doc ! p) \<and> p \<noteq> endPos)
      then p # hruleRun doc endPos m (p + 1) else [])"
  by (simp add: hruleRun_def upt_conv_Cons)

lemma hruleRun_end: "length doc \<le> p \<Longrightarrow> hruleRun doc endPos m p = []"
  by (simp add: hruleRun_def)

lemma hruleScan_run:
  "hruleScan doc endPos m count p =
     (count + length (filter (\<lambda>q. doc ! q = m) (hruleRun doc endPos m p)),
      p + length (hruleRun doc endPos m p))"
proof (induction doc endPos m count p rule: hruleScan.induct)
  case (1 doc endPos m count p)
  show ?case
  proof (cases "p < length doc")
    case True
    then have c: "SafeGetCharAt doc (int p) = doc ! p" by (simp add: SafeGetCharAt_def)
    show ?thesis
    proof (cases "doc ! p = m")
      case True
      with \<open>p < length doc\<close> c "1.IH"(1) show ?thesis
        by (subst hruleScan.simps) (simp add: hruleRun_step)
    next
      case False
      note notm = this
      show ?thesis
      proof (cases "\<not> IsASpaceOrTab (doc ! p) \<or> p = endPos")
        case True
        with \<open>p < length doc\<close> c notm show ?thesis
          by (subst hruleScan.simps) (auto simp: hruleRun_step)
      next
        case False
        with \<open>p < length doc\<close> c notm "1.IH"(2) show ?thesis
          by (subst hruleScan.simps) (simp add: hruleRun_step)
      qed
    qed
  next
    case False
    then have "SafeGetCharAt doc (int p) = NUL" by (simp add: SafeGetCharAt_def)
    with False show ?thesis
      by (subst hruleScan.simps) (simp add: hruleRun_end IsASpaceOrTab_def)
  qed
qed

lemma IsValidHrule_eq:
  "IsValidHrule doc endPos sc =
     (if hruleSpec doc endPos sc
      then (True, SetState SCE_MARKDOWN_LINE_BEGIN
                    (ForwardN doc (1 + length (hruleRun doc endPos (ch sc) (currentPos sc + 1)))
                       (SetState SCE_MARKDOWN_HRULE sc)))
      else (False, SetState SCE_MARKDOWN_DEFAULT sc))"
proof -
  let ?run = "hruleRun doc endPos (ch sc) (currentPos sc + 1)"
  have scan: "hruleScan doc endPos (ch sc) 1 (currentPos sc + 1) =
      (1 + length (filter (\<lambda>q. doc ! q = ch sc) ?run), currentPos sc + 1 + length ?run)"
    by (rule hruleScan_run)
  have d: "currentPos sc + 1 + length ?run - currentPos sc = 1 + length ?run" by simp
  show ?thesis
    unfolding IsValidHrule_def hruleSpec_def scan Let_def prod.case d HasPrevLineContent_words
    by (simp only: of_nat_add of_nat_1)
qed

lemma IsValidHrule_iff: "fst (IsValidHrule doc endPos sc) = hruleSpec doc endPos sc"
  by (simp add: IsValidHrule_eq)

lemma IsValidHrule_failure:
  "\<not> fst (IsValidHrule doc endPos sc) \<Longrightarrow>
   snd (IsValidHrule doc endPos sc) = SetState SCE_MARKDOWN_DEFAULT sc"
  by (simp add: IsValidHrule_eq split: if_splits)

lemma IsValidHrule_success:
  assumes ok: "cursorOK doc a sc" and more: "More sc" and mark: "isHruleChar (ch sc)"
    and yes: "fst (IsValidHrule doc endPos sc)"
  shows "state (snd (IsValidHrule doc endPos sc)) = SCE_MARKDOWN_LINE_BEGIN \<and>
         currentPos (snd (IsValidHrule doc endPos sc)) =
           min (currentPos sc + 1 + length (hruleRun doc endPos (ch sc) (currentPos sc + 1)))
               (endPos_sc sc) \<and>
         startSeg (SetState SCE_MARKDOWN_HRULE sc) = currentPos sc \<and>
         spans (snd (IsValidHrule doc endPos sc)) =
           spans (SetState SCE_MARKDOWN_HRULE sc) @
             [(segStop (snd (IsValidHrule doc endPos sc)) - 1, SCE_MARKDOWN_HRULE)]"
proof -
  define n where "n = 1 + length (hruleRun doc endPos (ch sc) (currentPos sc + 1))"
  let ?s1 = "SetState SCE_MARKDOWN_HRULE sc"
  let ?s2 = "ForwardN doc n ?s1"
  from yes have r: "snd (IsValidHrule doc endPos sc) = SetState SCE_MARKDOWN_LINE_BEGIN ?s2"
    unfolding n_def by (simp add: IsValidHrule_eq split: if_splits)
  have n1: "1 \<le> n" by (simp add: n_def)
  from mark have "ch sc \<noteq> NUL" by (auto simp: isHruleChar_def)
  from cursorOK_in_doc [OF ok more this] have inside: "currentPos sc < length doc" .
  from ok have le: "currentPos sc \<le> endPos_sc sc" "endPos_sc sc \<le> length doc + 1"
    "lengthDocument sc = length doc"
    by (simp_all add: cursorOK_def)
  from more have lt: "currentPos sc < endPos_sc sc" by (simp add: More_def)
  have ok1: "cursorOK doc a ?s1" using ok by simp
  have ok2: "cursorOK doc a ?s2" using ok1 by simp
  have seg1: "startSeg ?s1 = currentPos sc"
    using startSeg_SetState [OF ok] segStop_More [OF ok more] by simp
  have pos2: "currentPos ?s2 = min (currentPos sc + n) (endPos_sc sc)"
    using currentPos_ForwardN [of ?s1 doc n] le by simp
  from pos2 lt le inside n1 have stop2: "currentPos sc < segStop ?s2"
    by (auto simp: segStop_def min_def)
  with seg1 have ne: "startSeg ?s2 \<noteq> segStop ?s2" by simp
  have "spans (SetState SCE_MARKDOWN_LINE_BEGIN ?s2) =
          spans ?s1 @ [(segStop ?s2 - 1, SCE_MARKDOWN_HRULE)]"
    using ne by (simp add: spans_SetState [OF ok2])
  with r pos2 seg1 show ?thesis by (simp add: n_def add.assoc)
qed

text \<open>
  The postcondition of \<^verbatim>\<open>IsValidHrule\<close>, against the words of the specification.
  It succeeds if and only if the run of markers, spaces and tabs after the marker at the
  cursor reaches a line end or the end offset with at least three markers in all, and
  the previous line has no content. On success, with the cursor consistent and inside the
  range, it opens HRULE at the cursor, moves past the run (as far as the range goes),
  closes the HRULE span there and opens LINE_BEGIN; on failure it closes the open
  segment, opens DEFAULT, consumes nothing and returns false.
\<close>

lemma IsValidHrule_postcondition:
  "fst (IsValidHrule doc endPos sc) = hruleSpec doc endPos sc \<and>
   (if fst (IsValidHrule doc endPos sc)
    then (cursorOK doc a sc \<and> More sc \<and> isHruleChar (ch sc) \<longrightarrow>
           state (snd (IsValidHrule doc endPos sc)) = SCE_MARKDOWN_LINE_BEGIN \<and>
           currentPos (snd (IsValidHrule doc endPos sc)) =
             min (currentPos sc + 1 + length (hruleRun doc endPos (ch sc) (currentPos sc + 1)))
                 (endPos_sc sc) \<and>
           startSeg (SetState SCE_MARKDOWN_HRULE sc) = currentPos sc \<and>
           spans (snd (IsValidHrule doc endPos sc)) =
             spans (SetState SCE_MARKDOWN_HRULE sc) @
               [(segStop (snd (IsValidHrule doc endPos sc)) - 1, SCE_MARKDOWN_HRULE)])
    else snd (IsValidHrule doc endPos sc) = SetState SCE_MARKDOWN_DEFAULT sc)"
proof (cases "fst (IsValidHrule doc endPos sc)")
  case True
  with IsValidHrule_iff [of doc endPos sc] IsValidHrule_success [of doc a sc endPos]
  show ?thesis by (simp only: if_True simp_thms) blast
next
  case False
  with IsValidHrule_iff [of doc endPos sc] IsValidHrule_failure [of doc endPos sc]
  show ?thesis by (simp only: if_False simp_thms)
qed

text \<open>
  Three cursors in PRECHAR on a \<open>-\<close>: after an empty line the rule \<open>---\<close> is valid
  and the cursor moves to offset 4; after the line \<open>a\<close> the same run is refused, the
  previous line having content; and the run \<open>--\<close> is refused for its two markers.
\<close>

lemma IsValidHrule_examples:
  "hruleSpec ([LF] @ ''---'' @ [LF]) 5 (SetState SCE_MARKDOWN_PRECHAR
        (iterations 1 ([LF] @ ''---'' @ [LF]) 5 (scanStart ([LF] @ ''---'' @ [LF]) [] 0 5 0))) \<and>
   fst (IsValidHrule ([LF] @ ''---'' @ [LF]) 5 (SetState SCE_MARKDOWN_PRECHAR
        (iterations 1 ([LF] @ ''---'' @ [LF]) 5 (scanStart ([LF] @ ''---'' @ [LF]) [] 0 5 0)))) \<and>
   currentPos (snd (IsValidHrule ([LF] @ ''---'' @ [LF]) 5 (SetState SCE_MARKDOWN_PRECHAR
        (iterations 1 ([LF] @ ''---'' @ [LF]) 5 (scanStart ([LF] @ ''---'' @ [LF]) [] 0 5 0)))))
     = 4 \<and>
   prevLineHasContent (''a'' @ [LF] @ ''---'' @ [LF]) 2 \<and>
   \<not> fst (IsValidHrule (''a'' @ [LF] @ ''---'' @ [LF]) 6
        (StyleContext_init (''a'' @ [LF] @ ''---'' @ [LF]) 2 4 SCE_MARKDOWN_PRECHAR)) \<and>
   \<not> fst (IsValidHrule (''--x'') 3 (StyleContext_init (''--x'') 0 3 SCE_MARKDOWN_PRECHAR)) \<and>
   snd (IsValidHrule (''--x'') 3 (StyleContext_init (''--x'') 0 3 SCE_MARKDOWN_PRECHAR)) =
     SetState SCE_MARKDOWN_DEFAULT (StyleContext_init (''--x'') 0 3 SCE_MARKDOWN_PRECHAR)"
proof -
  let ?D = "[LF] @ ''---'' @ [LF]"
  let ?S = "SetState SCE_MARKDOWN_PRECHAR (iterations 1 ?D 5 (scanStart ?D [] 0 5 0))"
  have p: "cursorOK ?D 0 ?S" "More ?S" "isHruleChar (ch ?S)" by code_simp+
  have h: "hruleSpec ?D 5 ?S" by code_simp
  have q: "min (currentPos ?S + 1 + length (hruleRun ?D 5 (ch ?S) (currentPos ?S + 1)))
             (endPos_sc ?S) = 4" by code_simp
  from IsValidHrule_postcondition [of ?D 5 ?S 0] h
  have yes: "fst (IsValidHrule ?D 5 ?S)" by (simp only: simp_thms)
  from IsValidHrule_postcondition [of ?D 5 ?S 0] yes p
  have "currentPos (snd (IsValidHrule ?D 5 ?S)) =
          min (currentPos ?S + 1 + length (hruleRun ?D 5 (ch ?S) (currentPos ?S + 1)))
              (endPos_sc ?S)"
    by (simp only: if_True simp_thms)
  from this q have c: "currentPos (snd (IsValidHrule ?D 5 ?S)) = 4" by (rule trans)
  let ?A = "''a'' @ [LF] @ ''---'' @ [LF]"
  let ?U = "StyleContext_init ?A 2 4 SCE_MARKDOWN_PRECHAR"
  have content: "prevLineHasContent ?A 2" by code_simp
  have "currentPos ?U = 2" by (simp add: StyleContext_init_def)
  with content have "\<not> hruleSpec ?A 6 ?U" by (simp add: hruleSpec_def Let_def)
  with IsValidHrule_postcondition [of ?A 6 ?U 0]
  have u: "\<not> fst (IsValidHrule ?A 6 ?U)" by (simp only: simp_thms)
  let ?T = "StyleContext_init (''--x'') 0 3 SCE_MARKDOWN_PRECHAR"
  have no: "\<not> hruleSpec (''--x'') 3 ?T" by code_simp
  from IsValidHrule_postcondition [of "''--x''" 3 ?T 0] no
  have n1: "\<not> fst (IsValidHrule (''--x'') 3 ?T)" by (simp only: simp_thms)
  from IsValidHrule_postcondition [of "''--x''" 3 ?T 0] n1
  have n2: "snd (IsValidHrule (''--x'') 3 ?T) = SetState SCE_MARKDOWN_DEFAULT ?T"
    by (simp only: if_False simp_thms)
  show ?thesis by (intro conjI h yes c content u n1 n2)
qed

text \<open>
  C8 (the postcondition of \<^verbatim>\<open>IsValidHrule\<close>; in particular the input \<open>---\<close>, newline,
  as the very first line of a document is classified HRULE). The predicate does what the
  claim says of it, but the dispatch does not reach it on the first line: a fresh
  document is scanned from DEFAULT, whose rules at a line start hand the character back
  to the LINE_BEGIN rules for \<open>#\<close> and for an underlined header only (the source names
  this corner case where it declares \<^verbatim>\<open>freezeCursor\<close>). So the first line \<open>---\<close> comes
  out DEFAULT, while the first line \<open># T\<close> is HEADER1 and the same \<open>---\<close> after a line
  end is HRULE.
\<close>

theorem hrule_first_line_not_recognised:
  "ColorizeMarkdownDoc 10 (''---'' @ [LF]) [] 0 4 SCE_MARKDOWN_DEFAULT =
     Some [(2, SCE_MARKDOWN_DEFAULT), (3, SCE_MARKDOWN_LINE_BEGIN)] \<and>
   ColorizeMarkdownDoc 10 (''# T'' @ [LF]) [] 0 4 SCE_MARKDOWN_DEFAULT =
     Some [(2, SCE_MARKDOWN_HEADER1), (3, SCE_MARKDOWN_LINE_BEGIN)] \<and>
   ColorizeMarkdownDoc 10 ([LF] @ ''---'' @ [LF]) [] 0 5 SCE_MARKDOWN_DEFAULT =
     Some [(0, SCE_MARKDOWN_LINE_BEGIN), (3, SCE_MARKDOWN_HRULE), (4, SCE_MARKDOWN_LINE_BEGIN)]"
  by code_simp

section \<open>What the lookahead predicates read\<close>

text \<open>
  A predicate that reads only below some offset gives the same answer on two documents
  that agree below that offset. The three forward predicates do not: each of them gives
  different answers on two documents that agree on every offset below the end offset,
  so each reads at or past it. \<^verbatim>\<open>IsUnderlinedHeader\<close> at the start of a line that ends
  where the range ends looks at the next line; \<^verbatim>\<open>FollowToLineEnd\<close> follows its marker
  without any bound; \<^verbatim>\<open>IsValidHrule\<close> reads the character at the end offset before it
  compares the offset.
\<close>

theorem predicates_read_past_end_counterexample:
  "take 2 (''T'' @ [LF] @ ''='') = take 2 (''T'' @ [LF] @ ''x'') \<and>
   IsUnderlinedHeader (''T'' @ [LF] @ ''='') (CHR ''='') 2
     (StyleContext_init (''T'' @ [LF] @ ''='') 0 2 SCE_MARKDOWN_LINE_BEGIN) \<and>
   \<not> IsUnderlinedHeader (''T'' @ [LF] @ ''x'') (CHR ''='') 2
     (StyleContext_init (''T'' @ [LF] @ ''x'') 0 2 SCE_MARKDOWN_LINE_BEGIN) \<and>
   take 1 (''=='' @ [LF]) = take 1 (''==x'') \<and>
   fst (FollowToLineEnd (''=='' @ [LF]) (CHR ''='') SCE_MARKDOWN_HEADER1 1
     (StyleContext_init (''=='' @ [LF]) 0 1 SCE_MARKDOWN_LINE_BEGIN)) \<and>
   \<not> fst (FollowToLineEnd (''==x'') (CHR ''='') SCE_MARKDOWN_HEADER1 1
     (StyleContext_init (''==x'') 0 1 SCE_MARKDOWN_LINE_BEGIN)) \<and>
   take 3 (''---'' @ [LF]) = take 3 (''----'') \<and>
   fst (IsValidHrule (''---'' @ [LF]) 3
     (StyleContext_init (''---'' @ [LF]) 0 3 SCE_MARKDOWN_PRECHAR)) \<and>
   \<not> fst (IsValidHrule (''----'') 3
     (StyleContext_init (''----'') 0 3 SCE_MARKDOWN_PRECHAR))"
  by code_simp

lemma SafeGetCharAt_agree:
  assumes "take n doc = take n doc'" and "q < int n"
  shows "SafeGetCharAt doc q = SafeGetCharAt doc' q"
proof (cases "0 \<le> q")
  case True
  define i where "i = nat q"
  with True assms(2) have i: "i < n" "q = int i" by auto
  show ?thesis
  proof (cases "i < length doc")
    case True
    with i have "i < length (take n doc)" by simp
    with assms(1) have "i < length (take n doc')" by simp
    then have l: "i < length doc'" by simp
    from i True have "doc ! i = take n doc ! i" by simp
    also have "\<dots> = take n doc' ! i" by (simp only: assms(1))
    also from i have "\<dots> = doc' ! i" by simp
    finally show ?thesis using True l i by (simp add: SafeGetCharAt_def)
  next
    case False
    with i have "length (take n doc) = length doc" by simp
    with assms(1) have "length (take n doc') = length doc" by simp
    with False i have "\<not> i < length doc'" by auto
    with False i show ?thesis by (simp add: SafeGetCharAt_def)
  qed
next
  case False
  then show ?thesis by (simp add: SafeGetCharAt_def)
qed

lemma backToNewline_le: "backToNewline doc q \<le> q"
proof (induction doc q rule: backToNewline.induct)
  case (1 doc q)
  then show ?case by (subst backToNewline.simps) auto
qed

lemma backToNewline_agree:
  "take n doc = take n doc' \<Longrightarrow> q < int n \<Longrightarrow> backToNewline doc q = backToNewline doc' q"
proof (induction doc q rule: backToNewline.induct)
  case (1 doc q)
  from SafeGetCharAt_agree [OF "1.prems"]
  have c: "SafeGetCharAt doc q = SafeGetCharAt doc' q" .
  show ?case
  proof (cases "0 \<le> q \<and> \<not> IsNewline (SafeGetCharAt doc q)")
    case True
    with "1.IH" "1.prems" have "backToNewline doc (q - 1) = backToNewline doc' (q - 1)" by simp
    with True c show ?thesis
      by (subst backToNewline.simps, subst (2) backToNewline.simps) simp
  next
    case False
    with c show ?thesis
      by (subst backToNewline.simps, subst (2) backToNewline.simps) auto
  qed
qed

lemma contentBack_agree:
  "take n doc = take n doc' \<Longrightarrow> q < int n \<Longrightarrow> contentBack doc q = contentBack doc' q"
proof (induction doc q rule: contentBack.induct)
  case (1 doc q)
  from SafeGetCharAt_agree [OF "1.prems"]
  have c: "SafeGetCharAt doc q = SafeGetCharAt doc' q" .
  show ?case
  proof (cases "0 \<le> q \<and> \<not> IsNewline (SafeGetCharAt doc q) \<and>
                IsASpaceOrTab (SafeGetCharAt doc q)")
    case True
    with "1.IH" "1.prems" have "contentBack doc (q - 1) = contentBack doc' (q - 1)" by simp
    with True c show ?thesis
      by (subst contentBack.simps, subst (2) contentBack.simps) simp
  next
    case False
    with c show ?thesis
      by (subst contentBack.simps, subst (2) contentBack.simps) auto
  qed
qed

lemma HasPrevLineContent_agree:
  assumes "take (currentPos sc) doc = take (currentPos sc) doc'"
  shows "HasPrevLineContent doc sc = HasPrevLineContent doc' sc"
proof -
  let ?n = "currentPos sc"
  have lt: "int ?n - 1 < int ?n" by simp
  note q = backToNewline_agree [OF assms lt]
  have le: "backToNewline doc' (int ?n - 1) < int ?n"
    using backToNewline_le [of doc' "int ?n - 1"] by simp
  then have le1: "backToNewline doc' (int ?n - 1) - 1 < int ?n"
    and le2: "backToNewline doc' (int ?n - 1) - 1 - 1 < int ?n" by simp_all
  show ?thesis
    unfolding HasPrevLineContent_def q Let_def
    using SafeGetCharAt_agree [OF assms le] SafeGetCharAt_agree [OF assms le1]
      contentBack_agree [OF assms le1] contentBack_agree [OF assms le2]
    by simp
qed

lemma IsPrevLineEmpty_agree:
  assumes "take (currentPos sc) doc = take (currentPos sc) doc'"
  shows "IsPrevLineEmpty doc sc = IsPrevLineEmpty doc' sc"
proof -
  let ?n = "currentPos sc"
  have lt: "int ?n - 1 < int ?n" by simp
  note q = backToNewline_agree [OF assms lt]
  have le: "backToNewline doc' (int ?n - 1) < int ?n"
    using backToNewline_le [of doc' "int ?n - 1"] by simp
  then have le1: "backToNewline doc' (int ?n - 1) - 1 < int ?n"
    and le2: "backToNewline doc' (int ?n - 1) - 2 < int ?n" by simp_all
  show ?thesis
    unfolding IsPrevLineEmpty_def q Let_def
    using SafeGetCharAt_agree [OF assms le] SafeGetCharAt_agree [OF assms le1]
      SafeGetCharAt_agree [OF assms le2]
    by simp
qed

lemma firstLineScan_bound: "snd (firstLineScan doc endPos has p) \<le> max p endPos"
proof (induction doc endPos has p rule: firstLineScan.induct)
  case (1 doc endPos has p)
  then show ?case by (subst firstLineScan.simps) auto
qed

lemma firstLineScan_agree:
  "take n doc = take n doc' \<Longrightarrow> endPos \<le> n \<Longrightarrow>
   firstLineScan doc endPos has p = firstLineScan doc' endPos has p"
proof (induction doc endPos has p rule: firstLineScan.induct)
  case (1 doc endPos has p)
  show ?case
  proof (cases "p < endPos")
    case True
    with "1.prems" have "int p < int n" by simp
    from SafeGetCharAt_agree [OF "1.prems"(1) this]
    have c: "SafeGetCharAt doc (int p) = SafeGetCharAt doc' (int p)" .
    show ?thesis
    proof (cases "IsNewline (SafeGetCharAt doc (int p))")
      case True
      with c show ?thesis
        by (subst firstLineScan.simps, subst (2) firstLineScan.simps) simp
    next
      case False
      with "1.IH" [OF _ "1.prems"] \<open>p < endPos\<close> c show ?thesis
        by (subst firstLineScan.simps, subst (2) firstLineScan.simps) simp
    qed
  next
    case False
    then show ?thesis
      by (subst firstLineScan.simps, subst (2) firstLineScan.simps) simp
  qed
qed

lemma skipHdr_bound: "skipHdr doc endPos c p \<le> max p endPos"
proof (induction doc endPos c p rule: skipHdr.induct)
  case (1 doc endPos c p)
  then show ?case by (subst skipHdr.simps) auto
qed

lemma skipHdr_agree:
  "take n doc = take n doc' \<Longrightarrow> endPos \<le> n \<Longrightarrow>
   skipHdr doc endPos c p = skipHdr doc' endPos c p"
proof (induction doc endPos c p rule: skipHdr.induct)
  case (1 doc endPos c p)
  show ?case
  proof (cases "p < endPos")
    case True
    with "1.prems" have "int p < int n" by simp
    from SafeGetCharAt_agree [OF "1.prems"(1) this]
    have c: "SafeGetCharAt doc (int p) = SafeGetCharAt doc' (int p)" .
    show ?thesis
    proof (cases "SafeGetCharAt doc (int p) = c")
      case True
      with "1.IH" [OF _ "1.prems"] \<open>p < endPos\<close> c show ?thesis
        by (subst skipHdr.simps, subst (2) skipHdr.simps) simp
    next
      case False
      with c show ?thesis
        by (subst skipHdr.simps, subst (2) skipHdr.simps) simp
    qed
  next
    case False
    then show ?thesis
      by (subst skipHdr.simps, subst (2) skipHdr.simps) simp
  qed
qed

lemma skipBlanks_bound: "skipBlanks doc endPos p \<le> max p endPos"
proof (induction doc endPos p rule: skipBlanks.induct)
  case (1 doc endPos p)
  then show ?case by (subst skipBlanks.simps) auto
qed

lemma skipBlanks_agree:
  "take n doc = take n doc' \<Longrightarrow> endPos \<le> n \<Longrightarrow>
   skipBlanks doc endPos p = skipBlanks doc' endPos p"
proof (induction doc endPos p rule: skipBlanks.induct)
  case (1 doc endPos p)
  show ?case
  proof (cases "p < endPos")
    case True
    with "1.prems" have "int p < int n" by simp
    from SafeGetCharAt_agree [OF "1.prems"(1) this]
    have c: "SafeGetCharAt doc (int p) = SafeGetCharAt doc' (int p)" .
    show ?thesis
    proof (cases "IsASpaceOrTab (SafeGetCharAt doc (int p))")
      case True
      with "1.IH" [OF _ "1.prems"] \<open>p < endPos\<close> c show ?thesis
        by (subst skipBlanks.simps, subst (2) skipBlanks.simps) simp
    next
      case False
      with c show ?thesis
        by (subst skipBlanks.simps, subst (2) skipBlanks.simps) simp
    qed
  next
    case False
    then show ?thesis
      by (subst skipBlanks.simps, subst (2) skipBlanks.simps) simp
  qed
qed

lemma IsUnderlinedHeader_agree:
  assumes agree: "take (endPos + 3) doc = take (endPos + 3) doc'"
    and inside: "currentPos sc \<le> endPos"
  shows "IsUnderlinedHeader doc hdrCh endPos sc = IsUnderlinedHeader doc' hdrCh endPos sc"
proof -
  have n: "endPos \<le> endPos + 3" by simp
  obtain has p where scan: "firstLineScan doc endPos False (currentPos sc) = (has, p)"
    by (cases "firstLineScan doc endPos False (currentPos sc)")
  with firstLineScan_agree [OF agree n, of False "currentPos sc"]
  have scan': "firstLineScan doc' endPos False (currentPos sc) = (has, p)" by simp
  from firstLineScan_bound [of doc endPos False "currentPos sc"] scan inside
  have p: "p \<le> endPos" by simp
  have rd: "\<And>q. q \<le> endPos + 2 \<Longrightarrow> SafeGetCharAt doc (int q) = SafeGetCharAt doc' (int q)"
    by (rule SafeGetCharAt_agree [OF agree]) simp
  from p have c0: "SafeGetCharAt doc (int p) = SafeGetCharAt doc' (int p)" by (simp add: rd)
  from p rd [of "p + 1"]
  have c1: "SafeGetCharAt doc (int p + 1) = SafeGetCharAt doc' (int p + 1)"
    by (simp add: add.commute)
  define p2 where "p2 = p + (if SafeGetCharAt doc (int p) = CR \<and>
                               SafeGetCharAt doc (int p + 1) = LF then 2 else 1)"
  from p have p2: "p2 \<le> endPos + 2" by (simp add: p2_def)
  define p3 where "p3 = skipHdr doc endPos hdrCh p2"
  from skipHdr_bound [of doc endPos hdrCh p2] p2 have p3: "p3 \<le> endPos + 2"
    by (simp add: p3_def)
  define p4 where "p4 = skipBlanks doc endPos p3"
  from skipBlanks_bound [of doc endPos p3] p3 have p4: "p4 \<le> endPos + 2"
    by (simp add: p4_def)
  have e3: "skipHdr doc' endPos hdrCh p2 = p3"
    unfolding p3_def by (rule skipHdr_agree [OF agree n, symmetric])
  have e4: "skipBlanks doc' endPos p3 = p4"
    unfolding p4_def by (rule skipBlanks_agree [OF agree n, symmetric])
  have l: "IsUnderlinedHeader doc hdrCh endPos sc =
      (if \<not> has \<or> \<not> IsNewline (SafeGetCharAt doc (int p)) then False
       else if SafeGetCharAt doc (int p2) \<noteq> hdrCh then False
       else IsNewline (SafeGetCharAt doc (int p4)) \<or> p4 = endPos)"
    by (simp add: IsUnderlinedHeader_def scan Let_def p2_def p3_def p4_def)
  have r: "IsUnderlinedHeader doc' hdrCh endPos sc =
      (if \<not> has \<or> \<not> IsNewline (SafeGetCharAt doc' (int p)) then False
       else if SafeGetCharAt doc' (int p2) \<noteq> hdrCh then False
       else IsNewline (SafeGetCharAt doc' (int p4)) \<or> p4 = endPos)"
    unfolding IsUnderlinedHeader_def scan' Let_def prod.case
    using c0 c1 e3 e4 by (simp add: p2_def)
  show ?thesis
    unfolding l r using c0 rd [OF p2] rd [OF p4] by simp
qed

text \<open>
  C6, as amended. The two backward predicates are determined by the characters strictly
  before the cursor: on two documents that agree there, \<^verbatim>\<open>HasPrevLineContent\<close> and
  \<^verbatim>\<open>IsPrevLineEmpty\<close> give the same answer. With the cursor in the range,
  \<^verbatim>\<open>IsUnderlinedHeader\<close> is determined by the characters up to offset \<open>endPos + 2\<close>:
  it gives the same answer on two documents that agree below \<open>endPos + 3\<close>. (The
  forward predicates do read at and past the end offset, and \<^verbatim>\<open>FollowToLineEnd\<close> and
  \<^verbatim>\<open>IsValidHrule\<close> follow a run of markers wherever it ends.)
\<close>

theorem predicates_read_range:
  "(take (currentPos sc) doc = take (currentPos sc) doc' \<longrightarrow>
      HasPrevLineContent doc sc = HasPrevLineContent doc' sc \<and>
      IsPrevLineEmpty doc sc = IsPrevLineEmpty doc' sc) \<and>
   (take (endPos + 3) doc = take (endPos + 3) doc' \<and> currentPos sc \<le> endPos \<longrightarrow>
      IsUnderlinedHeader doc hdrCh endPos sc = IsUnderlinedHeader doc' hdrCh endPos sc)"
  using HasPrevLineContent_agree [of sc doc doc'] IsPrevLineEmpty_agree [of sc doc doc']
    IsUnderlinedHeader_agree [of endPos doc doc' sc hdrCh]
  by blast

theorem predicates_read_range_witness:
  "take 2 (''a'' @ [LF] @ ''-x'') = take 2 (''a'' @ [LF] @ ''=='' @ [LF]) \<and>
   HasPrevLineContent (''a'' @ [LF] @ ''=='' @ [LF])
     (StyleContext_init (''a'' @ [LF] @ ''-x'') 2 2 SCE_MARKDOWN_LINE_BEGIN) \<and>
   IsPrevLineEmpty (''a'' @ [LF] @ ''=='' @ [LF])
     (StyleContext_init (''a'' @ [LF] @ ''-x'') 2 2 SCE_MARKDOWN_LINE_BEGIN) \<and>
   take (2 + 3) (''T'' @ [LF] @ ''==='' @ ''abc'') = take (2 + 3) (''T'' @ [LF] @ ''==='' @ ''xyz'') \<and>
   IsUnderlinedHeader (''T'' @ [LF] @ ''==='' @ ''xyz'') (CHR ''='') 2
     (StyleContext_init (''T'' @ [LF] @ ''==='' @ ''abc'') 0 2 SCE_MARKDOWN_LINE_BEGIN)"
proof -
  let ?A = "''a'' @ [LF] @ ''-x''"
  let ?B = "''a'' @ [LF] @ ''=='' @ [LF]"
  let ?S = "StyleContext_init ?A 2 2 SCE_MARKDOWN_LINE_BEGIN"
  have a: "take 2 ?A = take 2 ?B" by simp
  have pos: "currentPos ?S = 2" by (simp add: StyleContext_init_def)
  have v: "HasPrevLineContent ?A ?S" "IsPrevLineEmpty ?A ?S" by code_simp+
  from predicates_read_range [of ?S ?A ?B] a
  have "HasPrevLineContent ?A ?S = HasPrevLineContent ?B ?S \<and>
        IsPrevLineEmpty ?A ?S = IsPrevLineEmpty ?B ?S"
    by (simp only: pos simp_thms)
  with v have b: "HasPrevLineContent ?B ?S" "IsPrevLineEmpty ?B ?S" by blast+
  let ?C = "''T'' @ [LF] @ ''==='' @ ''abc''"
  let ?E = "''T'' @ [LF] @ ''==='' @ ''xyz''"
  let ?T = "StyleContext_init ?C 0 2 SCE_MARKDOWN_LINE_BEGIN"
  have c: "take (2 + 3) ?C = take (2 + 3) ?E" by simp
  have pos': "currentPos ?T \<le> 2" by (simp add: StyleContext_init_def)
  have w: "IsUnderlinedHeader ?C (CHR ''='') 2 ?T" by code_simp
  from predicates_read_range [of ?T ?C ?E 2 "CHR ''=''"] c pos'
  have "IsUnderlinedHeader ?C (CHR ''='') 2 ?T = IsUnderlinedHeader ?E (CHR ''='') 2 ?T"
    by blast
  with w have d: "IsUnderlinedHeader ?E (CHR ''='') 2 ?T" by blast
  show ?thesis by (intro conjI a b c d)
qed

section \<open>Re-lexing from an offset\<close>

text \<open>
  A call with \<open>startPos > 0\<close> scans from the start of the line before the line of
  \<open>startPos\<close>, and takes as its initial state the style stored at that offset, which
  is the style of the first character of that line (reset to DEFAULT when it is above
  CODEBK); the style the caller passes plays no part.
\<close>

lemma scanStart_resumed:
  "0 < startPos \<Longrightarrow>
   scanStart doc styles startPos len initStyle =
     StyleContext_init doc (LineStart doc (GetLine doc startPos - 1))
       (len + (startPos - LineStart doc (GetLine doc startPos - 1)))
       (if SCE_MARKDOWN_CODEBK < StyleAt styles (LineStart doc (GetLine doc startPos - 1))
        then SCE_MARKDOWN_DEFAULT
        else StyleAt styles (LineStart doc (GetLine doc startPos - 1)))"
  by (simp add: scanStart_def resumePos_def resumeStyle_def Let_def)

lemma ColorizeMarkdownDoc_resumed:
  "0 < startPos \<Longrightarrow>
   ColorizeMarkdownDoc fuel doc styles startPos len initStyle =
   ColorizeMarkdownDoc fuel doc styles startPos len initStyle'"
  by (simp add: ColorizeMarkdownDoc_def scanStart_resumed)

text \<open>
  C1 (idempotence under re-lex: two consecutive calls split at any offset give the span
  stream of the single call). The document is a fenced block: newline, \<open>~~~\<close>, newline,
  four spaces and \<open>a\<close>, newline, four spaces and \<open>b\<close>, newline. The single call over
  offsets 0 to 17 classifies offsets 1 to 16 as CODEBK. Split at offset 5: the first
  call, over 0 to 5, leaves CODEBK stored on the fence line. The second call, asked for
  5 to 17, goes back to offset 1, the start of the fence line, and takes the style
  stored there, CODEBK, as the state before the fence: the CODEBK rule sees a line that
  does not begin with four spaces and closes the block, the fence is rescanned as plain
  text, and the two indented lines are PRECHAR and DEFAULT. Neither the two streams put
  end to end nor the styles the two calls leave are those of the single call; the block
  has lost CODEBK.
\<close>

theorem relex_loses_code_block:
  "ColorizeMarkdownDoc 40 ([LF] @ ''~~~'' @ [LF] @ ''    a'' @ [LF] @ ''    b'' @ [LF])
     (replicate 17 0) 0 17 SCE_MARKDOWN_DEFAULT =
     Some [(0, SCE_MARKDOWN_LINE_BEGIN), (16, SCE_MARKDOWN_CODEBK)] \<and>
   ColorizeMarkdownDoc 40 ([LF] @ ''~~~'' @ [LF] @ ''    a'' @ [LF] @ ''    b'' @ [LF])
     (replicate 17 0) 0 5 SCE_MARKDOWN_DEFAULT =
     Some [(0, SCE_MARKDOWN_LINE_BEGIN), (4, SCE_MARKDOWN_CODEBK)] \<and>
   applySpans 0 [(0, SCE_MARKDOWN_LINE_BEGIN), (4, SCE_MARKDOWN_CODEBK)] (replicate 17 0) =
     [1, 7, 7, 7, 7, 0, 0, 0, 0, 0, 0, 0, 0, 0, 0, 0, 0] \<and>
   resumePos ([LF] @ ''~~~'' @ [LF] @ ''    a'' @ [LF] @ ''    b'' @ [LF]) 5 = 1 \<and>
   ColorizeMarkdownDoc 40 ([LF] @ ''~~~'' @ [LF] @ ''    a'' @ [LF] @ ''    b'' @ [LF])
     [1, 7, 7, 7, 7, 0, 0, 0, 0, 0, 0, 0, 0, 0, 0, 0, 0] 5 12 SCE_MARKDOWN_CODEBK =
     Some [(1, SCE_MARKDOWN_LINE_BEGIN), (3, SCE_MARKDOWN_DEFAULT), (4, SCE_MARKDOWN_LINE_BEGIN),
           (8, SCE_MARKDOWN_PRECHAR), (9, SCE_MARKDOWN_DEFAULT), (10, SCE_MARKDOWN_LINE_BEGIN),
           (14, SCE_MARKDOWN_PRECHAR), (15, SCE_MARKDOWN_DEFAULT), (16, SCE_MARKDOWN_LINE_BEGIN)] \<and>
   applySpans 1
     [(1, SCE_MARKDOWN_LINE_BEGIN), (3, SCE_MARKDOWN_DEFAULT), (4, SCE_MARKDOWN_LINE_BEGIN),
      (8, SCE_MARKDOWN_PRECHAR), (9, SCE_MARKDOWN_DEFAULT), (10, SCE_MARKDOWN_LINE_BEGIN),
      (14, SCE_MARKDOWN_PRECHAR), (15, SCE_MARKDOWN_DEFAULT), (16, SCE_MARKDOWN_LINE_BEGIN)]
     [1, 7, 7, 7, 7, 0, 0, 0, 0, 0, 0, 0, 0, 0, 0, 0, 0] =
     [1, 1, 0, 0, 1, 16, 16, 16, 16, 0, 1, 16, 16, 16, 16, 0, 1] \<and>
   applySpans 0 [(0, SCE_MARKDOWN_LINE_BEGIN), (16, SCE_MARKDOWN_CODEBK)] (replicate 17 0) =
     [1, 7, 7, 7, 7, 7, 7, 7, 7, 7, 7, 7, 7, 7, 7, 7, 7]"
  by code_simp

end
